theory Spec2Isabelle
  imports Main
begin

section \<open>The platform: values, errors, file system, network\<close>

text \<open>
  The program of \<^verbatim>\<open>minecraft-assets-cache/create/main.mjs\<close> is embedded
  as state-passing functions. Everything the code awaits is a function from a world to a
  result and a new world; a thrown exception (a rejected promise) is the left injection
  of the result.

  Strings, paths, URLs and byte buffers are character lists (one character is one byte,
  so the model covers the 8-bit range of JavaScript strings; \<open>length\<close> of a
  buffer is its byte length).
\<close>

type_synonym path = string
type_synonym url = string
type_synonym bytes = string

text \<open>
  Exceptions. \<open>Error m\<close> is \<^verbatim>\<open>new Error(m)\<close>, the only exception the program
  constructs itself; \<open>SystemError c\<close> is an error of \<^verbatim>\<open>node:fs\<close> whose
  \<^verbatim>\<open>code\<close> property is \<open>c\<close>; \<open>TypeError\<close> and
  \<open>SyntaxError\<close> are raised by the runtime (a failed \<^verbatim>\<open>fetch\<close>,
  a property read on \<^verbatim>\<open>undefined\<close>, an invalid regular expression).
\<close>

datatype error = Error string | SystemError string | TypeError string | SyntaxError string

fun code :: "error \<Rightarrow> string option" where
  "code (SystemError c) = Some c"
| "code _ = None"

text \<open>The JSON documents of the remote origin, as far as the program reads them.\<close>

record version_entry =
  v_id :: string
  v_url :: string

record asset_index =
  ai_id :: string
  ai_url :: url
  ai_sha1 :: string
  ai_size :: nat

record asset_object =
  hash :: string
  obj_size :: nat

text \<open>
  A JavaScript object with string keys is its property list in creation order.
  \<open>VersionManifest\<close> is a document with a \<^verbatim>\<open>versions\<close> array,
  \<open>VersionMeta\<close> one with an \<^verbatim>\<open>assetIndex\<close> object,
  \<open>AssetIndexDoc\<close> one with an \<^verbatim>\<open>objects\<close> object (logical path to
  hash and size); \<open>OtherDoc\<close> is any other valid JSON value.
\<close>

type_synonym 'v js_object = "(string \<times> 'v) list"

datatype document =
    VersionManifest "version_entry list"
  | VersionMeta asset_index
  | AssetIndexDoc "asset_object js_object"
  | OtherDoc

text \<open>
  An HTTP response: \<^verbatim>\<open>res.ok\<close>, \<^verbatim>\<open>res.status\<close> and what
  reading the body (\<^verbatim>\<open>res.arrayBuffer()\<close>, \<^verbatim>\<open>res.json()\<close>)
  yields, which may itself reject.
\<close>

record response =
  ok :: bool
  status :: nat
  arrayBuffer :: "error + bytes"

text \<open>
  How \<^verbatim>\<open>writeFile\<close> can fail: before the file is opened (nothing changes),
  or after it was opened for writing, which truncates it, and \<open>n\<close> bytes were written.
\<close>

datatype write_failure = OpenFailed string | WriteFailed string nat

text \<open>
  The environment is everything the program does not control. \<open>net u n\<close> is the
  outcome of the \<open>n\<close>-th request (from 0) for URL \<open>u\<close>: a transport failure or
  a response. \<open>createHash m b\<close> is the lowercase hex digest of \<open>b\<close> under
  algorithm \<open>m\<close>. \<open>JSON_parse\<close> decodes a document (\<open>None\<close>: not
  valid JSON). The fault tables make a file-system call on a path raise the given error
  code. \<open>RegExp_exec p f s\<close> is
  \<^verbatim>\<open>new RegExp(p, f).exec(s)\<close>: an exception, \<^verbatim>\<open>null\<close>, or the
  match array (whole match first, then the capture groups, \<open>None\<close> for
  \<^verbatim>\<open>undefined\<close>).
\<close>

record env =
  net :: "url \<Rightarrow> nat \<Rightarrow> error + response"
  createHash :: "string \<Rightarrow> bytes \<Rightarrow> string"
  JSON_parse :: "bytes \<Rightarrow> document option"
  stat_fault :: "path \<Rightarrow> string option"
  read_fault :: "path \<Rightarrow> string option"
  mkdir_fault :: "path \<Rightarrow> string option"
  write_fault :: "path \<Rightarrow> write_failure option"
  readdir_fault :: "path \<Rightarrow> string option"
  RegExp_exec :: "string \<Rightarrow> string \<Rightarrow> string \<Rightarrow> error + string option list option"

text \<open>
  The observable calls, in the order they were issued. \<open>EvStart\<close> and
  \<open>EvDone\<close> mark a call of \<^verbatim>\<open>downloadIfChanged\<close> being started and
  being settled; they only observe.
\<close>

datatype event =
    EvStat path
  | EvRead path
  | EvFetch url
  | EvSleep nat
  | EvMkdir path
  | EvWrite path bytes
  | EvReaddir path
  | EvStart path
  | EvDone path "error + bool"

record world =
  files :: "path \<Rightarrow> bytes option"
  trace :: "event list"

type_synonym 'a io = "world \<Rightarrow> (error + 'a) \<times> world"

definition log :: "event \<Rightarrow> world \<Rightarrow> world" where
  "log e s = s\<lparr>trace := trace s @ [e]\<rparr>"

text \<open>\<^verbatim>\<open>stat(path)\<close>; only \<^verbatim>\<open>stats.size\<close> is read.\<close>

definition stat :: "env \<Rightarrow> path \<Rightarrow> nat io" where
  "stat env p s =
     ((case stat_fault env p of
         Some c \<Rightarrow> Inl (SystemError c)
       | None \<Rightarrow>
           (case files s p of
              None \<Rightarrow> Inl (SystemError ''ENOENT'')
            | Some b \<Rightarrow> Inr (length b))),
      log (EvStat p) s)"

text \<open>\<^verbatim>\<open>readFile(path, {encoding})\<close> and the read stream of
  \<^verbatim>\<open>calculateChecksum\<close>.\<close>

definition readFile :: "env \<Rightarrow> path \<Rightarrow> bytes io" where
  "readFile env p s =
     ((case read_fault env p of
         Some c \<Rightarrow> Inl (SystemError c)
       | None \<Rightarrow>
           (case files s p of
              None \<Rightarrow> Inl (SystemError ''ENOENT'')
            | Some b \<Rightarrow> Inr b)),
      log (EvRead p) s)"

text \<open>\<^verbatim>\<open>mkdir(dir, {recursive: true})\<close>: directories are not part of the
  state; the call is logged and may fail.\<close>

definition mkdir :: "env \<Rightarrow> path \<Rightarrow> unit io" where
  "mkdir env p s =
     ((case mkdir_fault env p of
         Some c \<Rightarrow> Inl (SystemError c)
       | None \<Rightarrow> Inr ()),
      log (EvMkdir p) s)"

text \<open>\<^verbatim>\<open>writeFile(path, buffer)\<close>: open with flag \<^verbatim>\<open>w\<close>
  (create or truncate), write, close.\<close>

definition writeFile :: "env \<Rightarrow> path \<Rightarrow> bytes \<Rightarrow> unit io" where
  "writeFile env p b s =
     (let s' = log (EvWrite p b) s in
      case write_fault env p of
        None \<Rightarrow> (Inr (), s'\<lparr>files := (files s')(p \<mapsto> b)\<rparr>)
      | Some (OpenFailed c) \<Rightarrow> (Inl (SystemError c), s')
      | Some (WriteFailed c n) \<Rightarrow>
          (Inl (SystemError c), s'\<lparr>files := (files s')(p \<mapsto> take n b)\<rparr>))"

text \<open>\<^verbatim>\<open>fetch(url)\<close>: the environment answers the next request for the URL.\<close>

definition requests :: "url \<Rightarrow> world \<Rightarrow> nat" where
  "requests u s = length (filter (\<lambda>e. e = EvFetch u) (trace s))"

definition fetch :: "env \<Rightarrow> url \<Rightarrow> response io" where
  "fetch env u s = (net env u (requests u s), log (EvFetch u) s)"

definition sleep :: "nat \<Rightarrow> unit io" where
  "sleep ms s = (Inr (), log (EvSleep ms) s)"

text \<open>Number to string, as in \<^verbatim>\<open>"HTTP Error " + res.status\<close>.\<close>

fun show_nat :: "nat \<Rightarrow> string" where
  "show_nat n =
     (if n < 10 then [''0123456789'' ! n]
      else show_nat (n div 10) @ [''0123456789'' ! (n mod 10)])"

declare show_nat.simps [simp del]

text \<open>
  \<^verbatim>\<open>path.dirname\<close> (POSIX): skip trailing separators, drop the last
  segment; \<^verbatim>\<open>.\<close> or \<^verbatim>\<open>/\<close> when no separator is left.
\<close>

definition dirname :: "path \<Rightarrow> path" where
  "dirname p =
     (if p = [] then ''.''
      else
        let hasRoot = (hd p = CHR ''/'');
            r = dropWhile (\<lambda>c. c = CHR ''/'') (rev (tl p));
            r' = dropWhile (\<lambda>c. c \<noteq> CHR ''/'') r
        in if r' = [] then (if hasRoot then ''/'' else ''.'')
           else if hasRoot \<and> length r' = 1 then ''//''
           else hd p # rev (tl r'))"

text \<open>
  \<^verbatim>\<open>path.join\<close>: the non-empty segments joined by the separator. The
  normalisation that \<^verbatim>\<open>path.join\<close> applies afterwards (dot segments, doubled
  separators) is the identity on the paths built here from a plain folder name, fixed
  names, identifiers and hex digests, and is not modelled.
\<close>

fun join_sep :: "string list \<Rightarrow> string" where
  "join_sep [] = []"
| "join_sep [x] = x"
| "join_sep (x # y # ys) = x @ ''/'' @ join_sep (y # ys)"

definition path_join :: "string list \<Rightarrow> path" where
  "path_join segs =
     (let js = filter (\<lambda>x. x \<noteq> []) segs in if js = [] then ''.'' else join_sep js)"

section \<open>Download if changed\<close>

definition maxConcurrency :: nat where
  "maxConcurrency = 20"

definition maxDownloadRetries :: nat where
  "maxDownloadRetries = 5"

text \<open>\<^verbatim>\<open>calculateChecksum(path, method)\<close>\<close>

definition calculateChecksum :: "env \<Rightarrow> path \<Rightarrow> string \<Rightarrow> string io" where
  "calculateChecksum env p method s =
     (case readFile env p s of
        (Inl e, s') \<Rightarrow> (Inl e, s')
      | (Inr b, s') \<Rightarrow> (Inr (createHash env method b), s'))"

text \<open>
  Lines 195 to 208: the probe of the local file. The result is \<open>Inr True\<close> when the
  file is there with the expected size and checksum (the function returns
  \<^verbatim>\<open>false\<close> at once), \<open>Inr False\<close> when a download is needed.
\<close>

definition probe :: "env \<Rightarrow> path \<Rightarrow> string \<Rightarrow> string \<Rightarrow> nat \<Rightarrow> bool io" where
  "probe env localPath checksumMethod checksum sz s =
     (case stat env localPath s of
        (Inl e, s1) \<Rightarrow>
          if code e = Some ''ENOENT'' then (Inr False, s1) else (Inl e, s1)
      | (Inr stats_size, s1) \<Rightarrow>
          if stats_size = sz then
            (case calculateChecksum env localPath checksumMethod s1 of
               (Inl e, s2) \<Rightarrow> (Inl e, s2)
             | (Inr localChecksum, s2) \<Rightarrow> (Inr (localChecksum = checksum), s2))
          else (Inr False, s1))"

text \<open>
  Lines 210 to 233: the retry loop. \<open>retries\<close> is the counter before the test
  \<^verbatim>\<open>retries++ < maxDownloadRetries\<close>. The loop returns
  \<^verbatim>\<open>lastError\<close> and \<^verbatim>\<open>buffer\<close> as they are when it is left.
\<close>

function download_loop ::
  "env \<Rightarrow> url \<Rightarrow> string \<Rightarrow> string \<Rightarrow> nat \<Rightarrow> nat \<Rightarrow> string option \<Rightarrow> bytes option
    \<Rightarrow> (string option \<times> bytes option) io" where
  "download_loop env u checksumMethod checksum sz retries lastError buffer s =
     (if retries < maxDownloadRetries then
        (case fetch env u s of
           (Inl e, s1) \<Rightarrow> (Inl e, s1)
         | (Inr res, s1) \<Rightarrow>
             if ok res then
               (case arrayBuffer res of
                  Inl e \<Rightarrow> (Inl e, s1)
                | Inr buf \<Rightarrow>
                    if length buf \<noteq> sz then
                      download_loop env u checksumMethod checksum sz (Suc retries)
                        (Some ''Size of downloaded file didn't match expected size'')
                        (Some buf) (snd (sleep 2000 s1))
                    else if createHash env checksumMethod buf \<noteq> checksum then
                      download_loop env u checksumMethod checksum sz (Suc retries)
                        (Some ''Checksum mismatch for downloaded file'')
                        (Some buf) (snd (sleep 2000 s1))
                    else (Inr (None, Some buf), s1))
             else
               download_loop env u checksumMethod checksum sz (Suc retries)
                 (Some (''HTTP Error '' @ show_nat (status res)))
                 buffer (snd (sleep 2000 s1)))
      else (Inr (lastError, buffer), s))"
  by pat_completeness auto
termination
  by (relation "measure (\<lambda>(env, u, m, c, sz, retries, le, b, s). maxDownloadRetries - retries)")
     auto

declare download_loop.simps [simp del]

text \<open>A string is truthy when it is not empty; \<^verbatim>\<open>undefined\<close> is falsy.\<close>

fun truthy :: "string option \<Rightarrow> bool" where
  "truthy None = False"
| "truthy (Some x) = (x \<noteq> [])"

definition DownloadFailed :: "url \<Rightarrow> string \<Rightarrow> error" where
  "DownloadFailed u reason = Error (''Failed to download '' @ u @ '': '' @ reason)"

text \<open>Lines 238 to 241: the accepted buffer is stored.\<close>

definition store :: "env \<Rightarrow> path \<Rightarrow> bytes option \<Rightarrow> bool io" where
  "store env localPath buffer s =
     (case mkdir env (dirname localPath) s of
        (Inl e, s1) \<Rightarrow> (Inl e, s1)
      | (Inr _, s1) \<Rightarrow>
          (case buffer of
             None \<Rightarrow> (Inl (TypeError ''The data argument must be of type string or Buffer''), s1)
           | Some buf \<Rightarrow>
               (case writeFile env localPath buf s1 of
                  (Inl e, s2) \<Rightarrow> (Inl e, s2)
                | (Inr _, s2) \<Rightarrow> (Inr True, s2))))"

definition downloadIfChanged ::
  "env \<Rightarrow> path \<Rightarrow> url \<Rightarrow> string \<Rightarrow> string \<Rightarrow> nat \<Rightarrow> bool io" where
  "downloadIfChanged env localPath u checksumMethod checksum sz s =
     (case probe env localPath checksumMethod checksum sz s of
        (Inl e, s1) \<Rightarrow> (Inl e, s1)
      | (Inr True, s1) \<Rightarrow> (Inr False, s1)
      | (Inr False, s1) \<Rightarrow>
          (case download_loop env u checksumMethod checksum sz 0 None None s1 of
             (Inl e, s2) \<Rightarrow> (Inl e, s2)
           | (Inr (lastError, buffer), s2) \<Rightarrow>
               (case lastError of
                  Some reason \<Rightarrow>
                    if truthy lastError then (Inl (DownloadFailed u reason), s2)
                    else store env localPath buffer s2
                | None \<Rightarrow> store env localPath buffer s2)))"

section \<open>JavaScript objects\<close>

text \<open>
  \<^verbatim>\<open>obj[k] = v\<close> on an ordinary object: an existing property keeps its place and
  takes the new value, a new property is created last.
\<close>

definition set_property :: "string \<Rightarrow> 'v \<Rightarrow> 'v js_object \<Rightarrow> 'v js_object" where
  "set_property k v obj =
     (if map_of obj k = None then obj @ [(k, v)]
      else map (\<lambda>(k', v'). if k' = k then (k', v) else (k', v')) obj)"

definition Object_fromEntries :: "(string \<times> 'v) list \<Rightarrow> 'v js_object" where
  "Object_fromEntries entries = foldl (\<lambda>obj (k, v). set_property k v obj) [] entries"

text \<open>
  The order of own property keys: array indices (canonical decimal numerals below
  \<open>2^32 - 1\<close>) first in ascending numeric order, then the other strings in creation
  order. \<^verbatim>\<open>Object.values\<close> lists the values in that order.
\<close>

definition digit_value :: "char \<Rightarrow> nat" where
  "digit_value ch = of_char ch - 48"

definition numeral_value :: "string \<Rightarrow> nat" where
  "numeral_value k = foldl (\<lambda>n ch. 10 * n + digit_value ch) 0 k"

definition is_array_index :: "string \<Rightarrow> bool" where
  "is_array_index k =
     (k \<noteq> [] \<and> list_all (\<lambda>ch. ch \<in> set ''0123456789'') k
      \<and> (k = ''0'' \<or> hd k \<noteq> CHR ''0'') \<and> numeral_value k < 2 ^ 32 - 1)"

definition own_properties :: "'v js_object \<Rightarrow> 'v js_object" where
  "own_properties obj =
     sort_key (\<lambda>(k, v). numeral_value k) (filter (\<lambda>(k, v). is_array_index k) obj)
     @ filter (\<lambda>(k, v). \<not> is_array_index k) obj"

definition Object_values :: "'v js_object \<Rightarrow> 'v list" where
  "Object_values obj = map snd (own_properties obj)"

text \<open>\<^verbatim>\<open>array.slice(start, end)\<close> for \<open>start \<le> end\<close>.\<close>

definition slice :: "'a list \<Rightarrow> nat \<Rightarrow> nat \<Rightarrow> 'a list" where
  "slice xs start end' = take (end' - start) (drop start xs)"

section \<open>Resolving versions to asset indices\<close>

definition version_manifest_url :: url where
  "version_manifest_url = ''https://piston-meta.mojang.com/mc/game/version_manifest_v2.json''"

text \<open>The text of an exception in a template string.\<close>

fun error_text :: "error \<Rightarrow> string" where
  "error_text (Error m) = ''Error: '' @ m"
| "error_text (SystemError c) = ''Error: '' @ c"
| "error_text (TypeError m) = ''TypeError: '' @ m"
| "error_text (SyntaxError m) = ''SyntaxError: '' @ m"

text \<open>\<^verbatim>\<open>downloadJson(url)\<close>, lines 265 to 276.\<close>

definition downloadJson :: "env \<Rightarrow> url \<Rightarrow> document io" where
  "downloadJson env u s =
     (case fetch env u s of
        (Inl e, s1) \<Rightarrow> (Inl e, s1)
      | (Inr response, s1) \<Rightarrow>
          if \<not> ok response then
            (Inl (Error (''Failed to JSON file '' @ u @ '': '' @ show_nat (status response))), s1)
          else
            (case arrayBuffer response of
               Inl e \<Rightarrow>
                 (Inl (Error (''Response from '' @ u @ '' was not valid JSON: '' @ error_text e)), s1)
             | Inr b \<Rightarrow>
                 (case JSON_parse env b of
                    None \<Rightarrow>
                      (Inl (Error (''Response from '' @ u @ '' was not valid JSON: ''
                                   @ error_text (SyntaxError ''Unexpected token''))), s1)
                  | Some doc \<Rightarrow> (Inr doc, s1))))"

definition VersionNotFound :: "string \<Rightarrow> error" where
  "VersionNotFound version = Error (''Minecraft version '' @ version @ '' not found'')"

text \<open>
  The loop of \<^verbatim>\<open>getAssetIndices\<close>, lines 250 to 261, over the requested
  versions that are left; \<open>assetIndices\<close> is the object built so far. A manifest
  without a \<^verbatim>\<open>versions\<close> array and a metadata document without an
  \<^verbatim>\<open>assetIndex\<close> make the property read throw.
\<close>

fun resolve_versions ::
  "env \<Rightarrow> document \<Rightarrow> string list \<Rightarrow> asset_index js_object \<Rightarrow> asset_index js_object io" where
  "resolve_versions env indexManifest [] assetIndices s = (Inr assetIndices, s)"
| "resolve_versions env indexManifest (version # rest) assetIndices s =
     (case indexManifest of
        VersionManifest versions \<Rightarrow>
          (case find (\<lambda>v. v_id v = version) versions of
             None \<Rightarrow> (Inl (VersionNotFound version), s)
           | Some v \<Rightarrow>
               if v_url v = [] then (Inl (VersionNotFound version), s)
               else
                 (case downloadJson env (v_url v) s of
                    (Inl e, s1) \<Rightarrow> (Inl e, s1)
                  | (Inr (VersionMeta assetIndex), s1) \<Rightarrow>
                      resolve_versions env indexManifest rest
                        (set_property (ai_id assetIndex) assetIndex assetIndices) s1
                  | (Inr _, s1) \<Rightarrow>
                      (Inl (TypeError ''Cannot read properties of undefined (reading id)''), s1)))
      | _ \<Rightarrow> (Inl (TypeError ''Cannot read properties of undefined (reading find)''), s))"

definition getAssetIndices :: "env \<Rightarrow> string list \<Rightarrow> asset_index js_object io" where
  "getAssetIndices env minecraftVersions s =
     (case downloadJson env version_manifest_url s of
        (Inl e, s1) \<Rightarrow> (Inl e, s1)
      | (Inr indexManifest, s1) \<Rightarrow> resolve_versions env indexManifest minecraftVersions [] s1)"

section \<open>Downloading the assets\<close>

text \<open>
  A started call of \<^verbatim>\<open>downloadIfChanged\<close>: the path it works on and what it
  does. \<^verbatim>\<open>objectChunk.map(...)\<close> starts one call per object of the chunk, and
  \<^verbatim>\<open>Promise.all\<close> waits for them: it is fulfilled with all results, or rejected
  with a rejection of a member. The members of a chunk run concurrently; they act on
  the paths and URLs of different hashes, and the model settles them one after the
  other in the order of the chunk. A rejection does not stop the other members.
\<close>

type_synonym task = "path \<times> bool io"

definition start_all :: "task list \<Rightarrow> world \<Rightarrow> world" where
  "start_all tasks s = foldl (\<lambda>s' t. log (EvStart (fst t)) s') s tasks"

fun settle_all :: "task list \<Rightarrow> world \<Rightarrow> (error + bool) list \<times> world" where
  "settle_all [] s = ([], s)"
| "settle_all (t # ts) s =
     (case snd t s of
        (r, s1) \<Rightarrow>
          (case settle_all ts (log (EvDone (fst t) r) s1) of
             (rs, s2) \<Rightarrow> (r # rs, s2)))"

fun all_fulfilled :: "(error + 'a) list \<Rightarrow> error + 'a list" where
  "all_fulfilled [] = Inr []"
| "all_fulfilled (Inl e # rs) = Inl e"
| "all_fulfilled (Inr x # rs) =
     (case all_fulfilled rs of Inl e \<Rightarrow> Inl e | Inr xs \<Rightarrow> Inr (x # xs))"

text \<open>A single awaited call.\<close>

definition await_task :: "task \<Rightarrow> bool io" where
  "await_task t s =
     (case snd t (log (EvStart (fst t)) s) of (r, s1) \<Rightarrow> (r, log (EvDone (fst t) r) s1))"

definition Promise_all :: "task list \<Rightarrow> bool list io" where
  "Promise_all tasks s =
     (case settle_all tasks (start_all tasks s) of (rs, s') \<Rightarrow> (all_fulfilled rs, s'))"

text \<open>The callback of \<^verbatim>\<open>objectChunk.map\<close>, lines 100 to 110.\<close>

definition object_url :: "string \<Rightarrow> url" where
  "object_url h = ''https://resources.download.minecraft.net/'' @ take 2 h @ ''/'' @ h"

definition object_path :: "path \<Rightarrow> string \<Rightarrow> path" where
  "object_path assetsFolder h = path_join [assetsFolder, ''objects'', take 2 h, h]"

definition download_object :: "env \<Rightarrow> path \<Rightarrow> asset_object \<Rightarrow> task" where
  "download_object env assetsFolder object =
     (object_path assetsFolder (hash object),
      downloadIfChanged env (object_path assetsFolder (hash object)) (object_url (hash object))
        ''sha1'' (hash object) (obj_size object))"

text \<open>
  The loop over the chunks, lines 97 to 115, from index \<open>i\<close> on; the result is
  \<^verbatim>\<open>downloadedFiles\<close>.
\<close>

function download_chunks ::
  "env \<Rightarrow> path \<Rightarrow> asset_object list \<Rightarrow> nat \<Rightarrow> nat \<Rightarrow> nat io" where
  "download_chunks env assetsFolder objects i downloadedFiles s =
     (if i < length objects then
        (case Promise_all
                (map (download_object env assetsFolder) (slice objects i (i + maxConcurrency))) s of
           (Inl e, s1) \<Rightarrow> (Inl e, s1)
         | (Inr downloadResult, s1) \<Rightarrow>
             download_chunks env assetsFolder objects (i + maxConcurrency)
               (downloadedFiles + length (filter (\<lambda>downloaded. downloaded) downloadResult)) s1)
      else (Inr downloadedFiles, s))"
  by pat_completeness auto
termination
  by (relation "measure (\<lambda>(env, assetsFolder, objects, i, n, s). length objects - i)")
     (auto simp: maxConcurrency_def)

declare download_chunks.simps [simp del]

text \<open>Lines 84 to 91: the objects of the asset index, one per hash.\<close>

definition dedupe_objects :: "asset_object js_object \<Rightarrow> asset_object list" where
  "dedupe_objects manifest_objects =
     Object_values (Object_fromEntries (map (\<lambda>object. (hash object, object))
       (Object_values manifest_objects)))"

definition index_path :: "path \<Rightarrow> string \<Rightarrow> path" where
  "index_path assetsFolder ident = path_join [assetsFolder, ''indexes'', ident @ ''.json'']"

text \<open>The body of the loop over the asset indices, lines 70 to 118.\<close>

definition download_index :: "env \<Rightarrow> path \<Rightarrow> asset_index \<Rightarrow> nat io" where
  "download_index env assetsFolder assetIndex s =
     (let assetIndexPath = index_path assetsFolder (ai_id assetIndex) in
      case await_task
             (assetIndexPath,
              downloadIfChanged env assetIndexPath (ai_url assetIndex) ''sha1''
                (ai_sha1 assetIndex) (ai_size assetIndex)) s of
        (Inl e, s1) \<Rightarrow> (Inl e, s1)
      | (Inr _, s1) \<Rightarrow>
          (case readFile env assetIndexPath s1 of
             (Inl e, s2) \<Rightarrow> (Inl e, s2)
           | (Inr content, s2) \<Rightarrow>
               (case JSON_parse env content of
                  None \<Rightarrow> (Inl (SyntaxError ''Unexpected token''), s2)
                | Some (AssetIndexDoc manifest_objects) \<Rightarrow>
                    download_chunks env assetsFolder (dedupe_objects manifest_objects) 0 0 s2
                | Some _ \<Rightarrow>
                    (Inl (TypeError ''Cannot convert undefined or null to object''), s2))))"

fun download_indices :: "env \<Rightarrow> path \<Rightarrow> asset_index list \<Rightarrow> unit io" where
  "download_indices env assetsFolder [] s = (Inr (), s)"
| "download_indices env assetsFolder (assetIndex # rest) s =
     (case download_index env assetsFolder assetIndex s of
        (Inl e, s1) \<Rightarrow> (Inl e, s1)
      | (Inr _, s1) \<Rightarrow> download_indices env assetsFolder rest s1)"

text \<open>\<^verbatim>\<open>getFolderSize\<close>: the size is only printed; walking the folder may
  fail.\<close>

definition getFolderSize :: "env \<Rightarrow> path \<Rightarrow> unit io" where
  "getFolderSize env dir s =
     ((case readdir_fault env dir of
         Some c \<Rightarrow> Inl (SystemError c)
       | None \<Rightarrow> Inr ()),
      log (EvReaddir dir) s)"

definition downloadAssets :: "env \<Rightarrow> string list \<Rightarrow> path \<Rightarrow> unit io" where
  "downloadAssets env minecraftVersions assetsFolder s =
     (case getAssetIndices env minecraftVersions s of
        (Inl e, s1) \<Rightarrow> (Inl e, s1)
      | (Inr assetIndices, s1) \<Rightarrow>
          (case download_indices env assetsFolder (Object_values assetIndices) s1 of
             (Inl e, s2) \<Rightarrow> (Inl e, s2)
           | (Inr _, s2) \<Rightarrow> getFolderSize env assetsFolder s2))"

section \<open>A matcher for a fragment of the regular expressions of JavaScript\<close>

text \<open>
  The fragment: characters, \<^verbatim>\<open>.\<close>, the escapes for digits, white space and word
  characters, character classes with ranges, \<^verbatim>\<open>^\<close> and \<^verbatim>\<open>$\<close>, capturing
  groups, alternatives, and the greedy quantifiers \<^verbatim>\<open>*\<close>, \<^verbatim>\<open>+\<close>,
  \<^verbatim>\<open>?\<close>; the flags \<^verbatim>\<open>m\<close>, \<^verbatim>\<open>s\<close>, \<^verbatim>\<open>y\<close> (and
  \<^verbatim>\<open>g\<close>, \<^verbatim>\<open>d\<close>, which do not change a first \<^verbatim>\<open>exec\<close>).
  Characters are 8-bit, so the line terminators are line feed and carriage return.
  A match state is the input read so far (reversed), the input left and the captures,
  latest first. \<open>match_ends\<close> lists the states in which a match of the expression can
  end, in the order in which backtracking tries them; an iteration of \<^verbatim>\<open>*\<close> that
  reads nothing is dropped, as the language prescribes.
\<close>

datatype class_item = Digit | Space | Word | NotDigit | NotSpace | NotWord | Single char | Range char char

datatype regex =
    RChr char
  | RDot
  | RClass bool "class_item list"
  | RBol
  | REol
  | REmpty
  | RGroup nat regex
  | RSeq regex regex
  | RAlt regex regex
  | RStar regex

definition line_terminator :: "char \<Rightarrow> bool" where
  "line_terminator ch = (ch = CHR 0x0A \<or> ch = CHR 0x0D)"

definition is_digit :: "char \<Rightarrow> bool" where
  "is_digit ch = (48 \<le> (of_char ch :: nat) \<and> (of_char ch :: nat) \<le> 57)"

definition is_lower :: "char \<Rightarrow> bool" where
  "is_lower ch = (97 \<le> (of_char ch :: nat) \<and> (of_char ch :: nat) \<le> 122)"

definition is_word :: "char \<Rightarrow> bool" where
  "is_word ch = (is_digit ch \<or> is_lower ch
                 \<or> (65 \<le> (of_char ch :: nat) \<and> (of_char ch :: nat) \<le> 90) \<or> ch = CHR ''_'')"

definition is_space :: "char \<Rightarrow> bool" where
  "is_space ch = ((of_char ch :: nat) \<in> set [9, 10, 11, 12, 13, 32, 160])"

fun in_item :: "char \<Rightarrow> class_item \<Rightarrow> bool" where
  "in_item ch Digit = is_digit ch"
| "in_item ch Space = is_space ch"
| "in_item ch Word = is_word ch"
| "in_item ch NotDigit = (\<not> is_digit ch)"
| "in_item ch NotSpace = (\<not> is_space ch)"
| "in_item ch NotWord = (\<not> is_word ch)"
| "in_item ch (Single a) = (ch = a)"
| "in_item ch (Range a b) = ((of_char a :: nat) \<le> of_char ch \<and> (of_char ch :: nat) \<le> of_char b)"

type_synonym mstate = "string \<times> string \<times> (nat \<times> string) list"

fun match_ends :: "bool \<Rightarrow> bool \<Rightarrow> regex \<Rightarrow> mstate \<Rightarrow> mstate list" where
  "match_ends ml da (RChr a) (seen, rest, caps) =
     (case rest of ch # rest' \<Rightarrow> if ch = a then [(ch # seen, rest', caps)] else [] | [] \<Rightarrow> [])"
| "match_ends ml da RDot (seen, rest, caps) =
     (case rest of
        ch # rest' \<Rightarrow> if da \<or> \<not> line_terminator ch then [(ch # seen, rest', caps)] else []
      | [] \<Rightarrow> [])"
| "match_ends ml da (RClass negated items) (seen, rest, caps) =
     (case rest of
        ch # rest' \<Rightarrow>
          if list_ex (in_item ch) items \<noteq> negated then [(ch # seen, rest', caps)] else []
      | [] \<Rightarrow> [])"
| "match_ends ml da RBol (seen, rest, caps) =
     (if seen = [] \<or> (ml \<and> line_terminator (hd seen)) then [(seen, rest, caps)] else [])"
| "match_ends ml da REol (seen, rest, caps) =
     (if rest = [] \<or> (ml \<and> line_terminator (hd rest)) then [(seen, rest, caps)] else [])"
| "match_ends ml da REmpty st = [st]"
| "match_ends ml da (RGroup n r) (seen, rest, caps) =
     map (\<lambda>(seen', rest', caps').
            (seen', rest', (n, rev (take (length seen' - length seen) seen')) # caps'))
         (match_ends ml da r (seen, rest, caps))"
| "match_ends ml da (RSeq r1 r2) st = concat (map (match_ends ml da r2) (match_ends ml da r1 st))"
| "match_ends ml da (RAlt r1 r2) st = match_ends ml da r1 st @ match_ends ml da r2 st"
| "match_ends ml da (RStar r) (seen, rest, caps) =
     concat (map (\<lambda>(seen', rest', caps').
                    if length rest' < length rest
                    then match_ends ml da (RStar r) (seen', rest', caps') else [])
                 (match_ends ml da r (seen, rest, caps)))
     @ [(seen, rest, caps)]"

type_synonym frame = "nat \<times> regex list \<times> regex list"

fun sequence :: "regex list \<Rightarrow> regex" where
  "sequence [] = REmpty"
| "sequence [r] = r"
| "sequence (r # rs) = RSeq r (sequence rs)"

fun alternation :: "regex list \<Rightarrow> regex" where
  "alternation [] = REmpty"
| "alternation [r] = r"
| "alternation (r # rs) = RAlt r (alternation rs)"

fun close_frame :: "frame \<Rightarrow> regex" where
  "close_frame (n, alternatives, items) = alternation (rev (sequence (rev items) # alternatives))"

fun push_item :: "regex \<Rightarrow> frame list \<Rightarrow> frame list option" where
  "push_item r [] = None"
| "push_item r ((n, alternatives, items) # stack) = Some ((n, alternatives, r # items) # stack)"

datatype pmode = Normal | InClass bool "class_item list"

type_synonym pstate = "pmode \<times> frame list \<times> nat"

definition escape_item :: "char \<Rightarrow> class_item option" where
  "escape_item e =
     (if e = CHR ''d'' then Some Digit else if e = CHR ''D'' then Some NotDigit
      else if e = CHR ''s'' then Some Space else if e = CHR ''S'' then Some NotSpace
      else if e = CHR ''w'' then Some Word else if e = CHR ''W'' then Some NotWord
      else if e = CHR ''n'' then Some (Single (CHR 0x0A))
      else if e = CHR ''r'' then Some (Single (CHR 0x0D))
      else if e = CHR ''t'' then Some (Single (CHR 0x09))
      else if e = CHR ''v'' then Some (Single (CHR 0x0B))
      else if e = CHR ''f'' then Some (Single (CHR 0x0C))
      else if e = CHR ''0'' then Some (Single (CHR 0x00))
      else if e \<in> set ''bBcknpPux123456789'' then None
      else Some (Single e))"

definition quantifiable :: "regex \<Rightarrow> bool" where
  "quantifiable r = (case r of RChr a \<Rightarrow> True | RDot \<Rightarrow> True | RClass n items \<Rightarrow> True
                     | RGroup n r' \<Rightarrow> True | _ \<Rightarrow> False)"

definition quantify :: "char \<Rightarrow> regex \<Rightarrow> regex" where
  "quantify q r = (if q = CHR ''*'' then RStar r
                   else if q = CHR ''+'' then RSeq r (RStar r)
                   else RAlt r REmpty)"

definition item_regex :: "class_item \<Rightarrow> regex" where
  "item_regex item = (case item of Single a \<Rightarrow> RChr a | _ \<Rightarrow> RClass False [item])"

fun parse_step :: "pstate \<Rightarrow> char \<Rightarrow> char option \<Rightarrow> (pstate \<times> bool) option" where
  "parse_step (Normal, stack, n) ch next =
     (if ch = CHR 0x5C then
        (case next of
           None \<Rightarrow> None
         | Some e \<Rightarrow>
             (case escape_item e of
                None \<Rightarrow> None
              | Some item \<Rightarrow>
                  map_option (\<lambda>stack'. ((Normal, stack', n), True))
                    (push_item (item_regex item) stack)))
      else if ch = CHR ''['' then
        (if next = Some (CHR ''^'') then Some ((InClass True [], stack, n), True)
         else Some ((InClass False [], stack, n), False))
      else if ch = CHR ''('' then
        (if next = Some (CHR ''?'') then None
         else Some ((Normal, (n, [], []) # stack, Suc n), False))
      else if ch = CHR '')'' then
        (case stack of
           f # g # stack' \<Rightarrow>
             map_option (\<lambda>stack''. ((Normal, stack'', n), False))
               (push_item (RGroup (fst f) (close_frame f)) (g # stack'))
         | _ \<Rightarrow> None)
      else if ch = CHR ''|'' then
        (case stack of
           (k, alternatives, items) # stack' \<Rightarrow>
             Some ((Normal, (k, sequence (rev items) # alternatives, []) # stack', n), False)
         | [] \<Rightarrow> None)
      else if ch = CHR ''*'' \<or> ch = CHR ''+'' \<or> ch = CHR ''?'' then
        (case stack of
           (k, alternatives, r # items) # stack' \<Rightarrow>
             if next = Some (CHR ''?'') \<or> \<not> quantifiable r then None
             else Some ((Normal, (k, alternatives, quantify ch r # items) # stack', n), False)
         | _ \<Rightarrow> None)
      else if ch = CHR ''{'' then None
      else
        map_option (\<lambda>stack'. ((Normal, stack', n), False))
          (push_item (if ch = CHR ''.'' then RDot else if ch = CHR ''^'' then RBol
                      else if ch = CHR ''$'' then REol else RChr ch) stack))"
| "parse_step (InClass negated items, stack, n) ch next =
     (if ch = CHR '']'' then
        map_option (\<lambda>stack'. ((Normal, stack', n), False))
          (push_item (RClass negated (rev items)) stack)
      else if ch = CHR 0x5C then
        (case next of
           None \<Rightarrow> None
         | Some e \<Rightarrow>
             if e = CHR ''b'' then Some ((InClass negated (Single (CHR 0x08) # items), stack, n), True)
             else map_option (\<lambda>item. ((InClass negated (item # items), stack, n), True))
                    (escape_item e))
      else if ch = CHR ''-'' then
        (case (items, next) of
           (Single a # items', Some b) \<Rightarrow>
             if b = CHR '']'' then Some ((InClass negated (Single ch # items), stack, n), False)
             else if b = CHR 0x5C \<or> (of_char b :: nat) < of_char a then None
             else Some ((InClass negated (Range a b # items'), stack, n), True)
         | _ \<Rightarrow> Some ((InClass negated (Single ch # items), stack, n), False))
      else Some ((InClass negated (Single ch # items), stack, n), False))"

function parse_from :: "pstate \<Rightarrow> string \<Rightarrow> (regex \<times> nat) option" where
  "parse_from st [] =
     (case st of (Normal, [f], n) \<Rightarrow> Some (close_frame f, n - 1) | _ \<Rightarrow> None)"
| "parse_from st [ch] =
     (case parse_step st ch None of None \<Rightarrow> None | Some (st', two) \<Rightarrow> parse_from st' [])"
| "parse_from st (ch # next # cs) =
     (case parse_step st ch (Some next) of
        None \<Rightarrow> None
      | Some (st', two) \<Rightarrow> parse_from st' (if two then cs else next # cs))"
  by pat_completeness auto
termination
  by (relation "measure (\<lambda>(st, cs). length cs)") auto

definition parse_regex :: "string \<Rightarrow> (regex \<times> nat) option" where
  "parse_regex pattern = parse_from (Normal, [(0, [], [])], 1) pattern"

fun first_match :: "bool \<Rightarrow> bool \<Rightarrow> bool \<Rightarrow> regex \<Rightarrow> string \<Rightarrow> string
    \<Rightarrow> (string \<times> (nat \<times> string) list) option" where
  "first_match sticky ml da r seen [] =
     (case match_ends ml da r (seen, [], []) of
        (seen', rest', caps) # others \<Rightarrow>
          Some (rev (take (length seen' - length seen) seen'), caps)
      | [] \<Rightarrow> None)"
| "first_match sticky ml da r seen (ch # rest) =
     (case match_ends ml da r (seen, ch # rest, []) of
        (seen', rest', caps) # others \<Rightarrow>
          Some (rev (take (length seen' - length seen) seen'), caps)
      | [] \<Rightarrow> if sticky then None else first_match sticky ml da r (ch # seen) rest)"

definition valid_flags :: "string \<Rightarrow> bool" where
  "valid_flags flags = (list_all (\<lambda>ch. ch \<in> set ''dgimsuvy'') flags \<and> distinct flags)"

text \<open>\<^verbatim>\<open>regex.exec(input)\<close> on a fresh regular expression: the match array, or
  \<open>None\<close> for \<^verbatim>\<open>null\<close>.\<close>

definition exec_regex :: "string \<Rightarrow> regex \<Rightarrow> nat \<Rightarrow> string \<Rightarrow> string option list option" where
  "exec_regex flags r groups input =
     (case first_match (CHR ''y'' \<in> set flags) (CHR ''m'' \<in> set flags)
             (CHR ''s'' \<in> set flags) r [] input of
        None \<Rightarrow> None
      | Some (whole, caps) \<Rightarrow> Some (Some whole # map (map_of caps) [1..<Suc groups]))"

text \<open>
  \<^verbatim>\<open>new RegExp(pattern, flags).exec(input)\<close> for the fragment. Flags that are
  not flags, or given twice, are a \<^verbatim>\<open>SyntaxError\<close> as in JavaScript. A pattern
  that does not parse, and the flags \<^verbatim>\<open>i\<close>, \<^verbatim>\<open>u\<close>, \<^verbatim>\<open>v\<close>, are
  answered with a \<^verbatim>\<open>SyntaxError\<close> as well: this is exact for patterns that
  JavaScript rejects, and stands for "not modelled" otherwise, so only the results
  \<open>Inr\<close> say what JavaScript computes.
\<close>

definition RegExp_fragment :: "string \<Rightarrow> string \<Rightarrow> string \<Rightarrow> error + string option list option" where
  "RegExp_fragment pattern flags input =
     (if \<not> valid_flags flags then Inl (SyntaxError ''Invalid flags supplied to RegExp constructor'')
      else if list_ex (\<lambda>ch. ch \<in> set ''iuv'') flags
        then Inl (SyntaxError ''Flag outside the modelled fragment'')
      else
        (case parse_regex pattern of
           None \<Rightarrow> Inl (SyntaxError ''Invalid regular expression'')
         | Some (r, groups) \<Rightarrow> Inr (exec_regex flags r groups input)))"

section \<open>Guessing the version from a file\<close>

text \<open>
  Line 315: \<^verbatim>\<open>minecraftVersionRegexp.match(/\/(.*)\/([a-z]*)/)\<close>. The literal is
  in the fragment; its text is parsed and run by the matcher. The result is the pair
  of the two groups, \<^verbatim>\<open>pattern\<close> and \<^verbatim>\<open>flags\<close>.
\<close>

definition regexp_literal_pattern :: string where
  "regexp_literal_pattern = [CHR 0x5C] @ ''/(.*)'' @ [CHR 0x5C] @ ''/([a-z]*)''"

definition regexp_literal :: "string \<Rightarrow> (string \<times> string) option" where
  "regexp_literal str =
     (case parse_regex regexp_literal_pattern of
        None \<Rightarrow> None
      | Some (r, groups) \<Rightarrow>
          (case exec_regex [] r groups str of
             Some [whole, Some pattern, Some flags] \<Rightarrow> Some (pattern, flags)
           | _ \<Rightarrow> None))"

text \<open>\<^verbatim>\<open>guessCurrentMinecraftVersionFromFile\<close>, lines 300 to 328. The result
  \<open>Inr None\<close> is \<^verbatim>\<open>undefined\<close>.\<close>

definition guessCurrentMinecraftVersionFromFile ::
  "env \<Rightarrow> path \<Rightarrow> string \<Rightarrow> string option io" where
  "guessCurrentMinecraftVersionFromFile env minecraftVersionFile minecraftVersionRegexp s =
     (case readFile env minecraftVersionFile s of
        (Inl e, s1) \<Rightarrow> if code e = Some ''ENOENT'' then (Inr None, s1) else (Inl e, s1)
      | (Inr fileContent, s1) \<Rightarrow>
          (case regexp_literal minecraftVersionRegexp of
             None \<Rightarrow>
               (Inl (Error ''minecraft-version-regexp doesnt match format /regexp/flags''), s1)
           | Some (pattern, flags) \<Rightarrow>
               (case RegExp_exec env pattern flags fileContent of
                  Inl e \<Rightarrow> (Inl e, s1)
                | Inr None \<Rightarrow> (Inr None, s1)
                | Inr (Some matches) \<Rightarrow>
                    (Inr (if 1 < length matches then matches ! 1 else None), s1))))"

section \<open>Vocabulary of the properties\<close>

text \<open>
  What one pass through the loop body does with the answer to request \<open>n\<close> for the
  URL (lines 214 to 231): the answer is accepted (\<^verbatim>\<open>break\<close>), it is a failure
  that sets \<^verbatim>\<open>lastError\<close> and is retried, or an exception leaves the function.
\<close>

datatype outcome = Accepted bytes | Retry string | Raised error

definition attempt :: "env \<Rightarrow> url \<Rightarrow> string \<Rightarrow> string \<Rightarrow> nat \<Rightarrow> nat \<Rightarrow> outcome" where
  "attempt env u checksumMethod checksum sz n =
     (case net env u n of
        Inl e \<Rightarrow> Raised e
      | Inr res \<Rightarrow>
          if ok res then
            (case arrayBuffer res of
               Inl e \<Rightarrow> Raised e
             | Inr buf \<Rightarrow>
                 if length buf \<noteq> sz then Retry ''Size of downloaded file didn't match expected size''
                 else if createHash env checksumMethod buf \<noteq> checksum
                   then Retry ''Checksum mismatch for downloaded file''
                 else Accepted buf)
          else Retry (''HTTP Error '' @ show_nat (status res)))"

text \<open>The world after \<open>k\<close> failed attempts: \<open>k\<close> times a request and the pause of
  two seconds.\<close>

definition retried :: "url \<Rightarrow> nat \<Rightarrow> world \<Rightarrow> world" where
  "retried u k s = s\<lparr>trace := trace s @ concat (replicate k [EvFetch u, EvSleep 2000])\<rparr>"

text \<open>The local file is already correct: it exists with the expected size and digest.\<close>

definition locally_correct :: "env \<Rightarrow> path \<Rightarrow> string \<Rightarrow> string \<Rightarrow> nat \<Rightarrow> world \<Rightarrow> bool" where
  "locally_correct env p checksumMethod checksum sz s =
     (case files s p of
        None \<Rightarrow> False
      | Some b \<Rightarrow> length b = sz \<and> createHash env checksumMethod b = checksum)"

text \<open>
  Example environments for concrete runs. The digest of the examples is the content
  itself; the origin of \<open>flaky_env\<close> answers every URL with status 500 first, fails at
  the transport level on the second request and serves \<^verbatim>\<open>hello\<close> from then on.
\<close>

definition quiet_env :: env where
  "quiet_env =
     \<lparr>net = (\<lambda>u n. Inr \<lparr>ok = True, status = 200, arrayBuffer = Inr ''hello''\<rparr>),
      createHash = (\<lambda>m b. b),
      JSON_parse = (\<lambda>b. None),
      stat_fault = (\<lambda>p. None),
      read_fault = (\<lambda>p. None),
      mkdir_fault = (\<lambda>p. None),
      write_fault = (\<lambda>p. None),
      readdir_fault = (\<lambda>p. None),
      RegExp_exec = (\<lambda>p f s. Inr None)\<rparr>"

definition flaky_env :: env where
  "flaky_env =
     quiet_env\<lparr>net := (\<lambda>u n.
        if n = 0 then Inr \<lparr>ok = False, status = 500, arrayBuffer = Inr []\<rparr>
        else if n = 1 then Inl (TypeError ''fetch failed'')
        else Inr \<lparr>ok = True, status = 200, arrayBuffer = Inr ''hello''\<rparr>)\<rparr>"

text \<open>An origin that serves every object: under the digest of the examples the
  bytes of an object are its hash, the part of the URL after the 44 characters of host
  and prefix.\<close>

definition mirror_env :: env where
  "mirror_env =
     quiet_env\<lparr>net := (\<lambda>u n. Inr \<lparr>ok = True, status = 200, arrayBuffer = Inr (drop 44 u)\<rparr>)\<rparr>"

definition example_objects :: "asset_object js_object" where
  "example_objects =
     [(''icons/a.png'', \<lparr>hash = ''aa11'', obj_size = 4\<rparr>),
      (''lang/en.json'', \<lparr>hash = ''bb22'', obj_size = 4\<rparr>),
      (''icons/copy.png'', \<lparr>hash = ''aa11'', obj_size = 4\<rparr>)]"

definition empty_world :: world where
  "empty_world = \<lparr>files = Map.empty, trace = []\<rparr>"

text \<open>
  Reading a trace. A call of \<^verbatim>\<open>downloadIfChanged\<close> is in flight from its
  \<open>EvStart\<close> to its \<open>EvDone\<close>.
\<close>

fun is_start :: "event \<Rightarrow> bool" where
  "is_start (EvStart p) = True"
| "is_start _ = False"

fun is_done :: "event \<Rightarrow> bool" where
  "is_done (EvDone p r) = True"
| "is_done _ = False"

fun is_write :: "event \<Rightarrow> bool" where
  "is_write (EvWrite p b) = True"
| "is_write _ = False"

fun is_fetch :: "event \<Rightarrow> bool" where
  "is_fetch (EvFetch u) = True"
| "is_fetch _ = False"

fun event_path :: "event \<Rightarrow> path" where
  "event_path (EvStat p) = p"
| "event_path (EvRead p) = p"
| "event_path (EvFetch u) = u"
| "event_path (EvSleep n) = []"
| "event_path (EvMkdir p) = p"
| "event_path (EvWrite p b) = p"
| "event_path (EvReaddir p) = p"
| "event_path (EvStart p) = p"
| "event_path (EvDone p r) = p"


text \<open>
  A trace made of batches run one after the other: for each batch the calls for its
  paths are started together, and before anything of the next batch is started each of
  them has settled, in this order of paths.
\<close>

fun batched :: "path list list \<Rightarrow> event list \<Rightarrow> bool" where
  "batched [] evs = (evs = [])"
| "batched (ps # pss) evs =
     (ps \<noteq> [] \<and> takeWhile is_start evs = map EvStart ps
      \<and> map event_path (filter is_done (takeWhile (\<lambda>e. \<not> is_start e) (dropWhile is_start evs))) = ps
      \<and> batched pss (dropWhile (\<lambda>e. \<not> is_start e) (dropWhile is_start evs)))"

text \<open>The chunks the loop of lines 97 to 115 takes from index \<open>i\<close> on.\<close>

function chunks_from :: "'a list \<Rightarrow> nat \<Rightarrow> 'a list list" where
  "chunks_from xs i =
     (if i < length xs then slice xs i (i + maxConcurrency) # chunks_from xs (i + maxConcurrency)
      else [])"
  by pat_completeness auto
termination
  by (relation "measure (\<lambda>(xs, i). length xs - i)") (auto simp: maxConcurrency_def)

declare chunks_from.simps [simp del]

text \<open>A task that logs no start and no settlement of its own.\<close>

definition quiet :: "task \<Rightarrow> bool" where
  "quiet t = (\<forall>s. \<exists>evs. trace (snd (snd t s)) = trace s @ evs
                \<and> (\<forall>e\<in>set evs. \<not> is_start e \<and> \<not> is_done e))"

text \<open>
  A job is a call of \<^verbatim>\<open>downloadIfChanged\<close> with the checksum method
  \<^verbatim>\<open>sha1\<close>: local path, URL, expected checksum and expected size. It is done
  when the file at its path has the expected size and checksum.
\<close>

type_synonym job = "path \<times> url \<times> string \<times> nat"

fun job_task :: "env \<Rightarrow> job \<Rightarrow> task" where
  "job_task env (p, u, c, z) = (p, downloadIfChanged env p u ''sha1'' c z)"

fun job_done :: "env \<Rightarrow> job \<Rightarrow> world \<Rightarrow> bool" where
  "job_done env (p, u, c, z) s = locally_correct env p ''sha1'' c z s"

definition object_job :: "path \<Rightarrow> asset_object \<Rightarrow> job" where
  "object_job assetsFolder object =
     (object_path assetsFolder (hash object), object_url (hash object), hash object,
      obj_size object)"

definition index_job :: "path \<Rightarrow> asset_index \<Rightarrow> job" where
  "index_job assetsFolder assetIndex =
     (index_path assetsFolder (ai_id assetIndex), ai_url assetIndex, ai_sha1 assetIndex,
      ai_size assetIndex)"

definition writes_at :: "path \<Rightarrow> event list \<Rightarrow> nat" where
  "writes_at p evs = length (filter (\<lambda>e. is_write e \<and> event_path e = p) evs)"

text \<open>A settled call was rejected.\<close>

fun is_rejection :: "event \<Rightarrow> bool" where
  "is_rejection (EvDone p (Inl e)) = True"
| "is_rejection _ = False"

text \<open>A disk that fills up after two bytes of every write.\<close>

definition full_disk_env :: env where
  "full_disk_env = mirror_env\<lparr>write_fault := (\<lambda>p. Some (WriteFailed ''ENOSPC'' 2))\<rparr>"

text \<open>A computation whose trace shows no rejected call whenever it is fulfilled.\<close>

definition faithful :: "'a io \<Rightarrow> bool" where
  "faithful f =
     (\<forall>s. \<exists>evs. trace (snd (f s)) = trace s @ evs
        \<and> ((\<exists>x. fst (f s) = Inr x) \<longrightarrow> (\<forall>e\<in>set evs. \<not> is_rejection e)))"

text \<open>
  An origin that answers 500, then a body that is one byte short, then the right
  bytes; and an origin that is down.
\<close>

definition recovering_env :: env where
  "recovering_env =
     quiet_env\<lparr>net := (\<lambda>u n.
        if n = 0 then Inr \<lparr>ok = False, status = 500, arrayBuffer = Inr []\<rparr>
        else if n = 1 then Inr \<lparr>ok = True, status = 200, arrayBuffer = Inr ''hell''\<rparr>
        else Inr \<lparr>ok = True, status = 200, arrayBuffer = Inr ''hello''\<rparr>)\<rparr>"

definition down_env :: env where
  "down_env = quiet_env\<lparr>net := (\<lambda>u n. Inr \<lparr>ok = False, status = 503, arrayBuffer = Inr []\<rparr>)\<rparr>"






text \<open>
  The shape that line 315 looks for anywhere in the string: a slash, a pattern without
  line terminator, a slash; the flags are the lowercase letters that follow, possibly
  none.
\<close>

definition has_regexp_shape :: "string \<Rightarrow> bool" where
  "has_regexp_shape str =
     (\<exists>pre pattern rest. str = pre @ ''/'' @ pattern @ ''/'' @ rest
        \<and> (\<forall>ch\<in>set pattern. \<not> line_terminator ch))"

text \<open>The example of the tests: a properties file and the regular expression of the
  documentation, run by the matcher.\<close>

definition scrape_env :: env where
  "scrape_env = quiet_env\<lparr>RegExp_exec := RegExp_fragment\<rparr>"

definition gradle_properties :: string where
  "gradle_properties =
     ''hello world\<newline>#minecraft_version=1.10\<newline>minecraft_version=1.21.1\<newline>''"

definition version_regexp :: string where
  "version_regexp =
     ''/^'' @ [CHR 0x5C] @ ''s*minecraft_version'' @ [CHR 0x5C] @ ''s*='' @ [CHR 0x5C]
     @ ''s*(.+)'' @ [CHR 0x5C] @ ''s*$/m''"

text \<open>
  Reading a second run. An event of a call that only checks what is there: a
  \<^verbatim>\<open>stat\<close>, a read, a call of \<^verbatim>\<open>downloadIfChanged\<close> that is started,
  one that is settled with \<^verbatim>\<open>false\<close> (the file was already present), the
  walk of the folder. Requests, pauses, \<^verbatim>\<open>mkdir\<close>, writes, and calls settled
  with \<^verbatim>\<open>true\<close> or rejected are not.
\<close>

fun is_check :: "event \<Rightarrow> bool" where
  "is_check (EvStat p) = True"
| "is_check (EvRead p) = True"
| "is_check (EvStart p) = True"
| "is_check (EvDone p r) = (r = Inr False)"
| "is_check (EvReaddir p) = True"
| "is_check _ = False"

text \<open>
  The objects that lines 84 to 91 take from the file of an asset index as it is in
  the world, if the file is there and is a document with an \<^verbatim>\<open>objects\<close>
  object. An asset index is in place when its file is correct, the objects can be taken
  from it, and the file of every one of them is correct.
\<close>

definition index_objects :: "env \<Rightarrow> path \<Rightarrow> asset_index \<Rightarrow> world \<Rightarrow> asset_object list option" where
  "index_objects env assetsFolder assetIndex s =
     (case files s (index_path assetsFolder (ai_id assetIndex)) of
        None \<Rightarrow> None
      | Some content \<Rightarrow>
          (case JSON_parse env content of
             Some (AssetIndexDoc manifest_objects) \<Rightarrow> Some (dedupe_objects manifest_objects)
           | _ \<Rightarrow> None))"

definition index_in_place :: "env \<Rightarrow> path \<Rightarrow> asset_index \<Rightarrow> world \<Rightarrow> bool" where
  "index_in_place env assetsFolder assetIndex s =
     (job_done env (index_job assetsFolder assetIndex) s
      \<and> (case index_objects env assetsFolder assetIndex s of
           None \<Rightarrow> False
         | Some objects \<Rightarrow> list_all (\<lambda>object. job_done env (object_job assetsFolder object) s) objects))"

text \<open>Two jobs that expect the same checksum whenever they work on the same path.\<close>

definition agree :: "job \<Rightarrow> job \<Rightarrow> bool" where
  "agree j j' = (fst j = fst j' \<longrightarrow> fst (snd (snd j)) = fst (snd (snd j')))"

section \<open>Properties of the download primitive\<close>

lemma requests_log_fetch [simp]: "requests u (log (EvFetch u) s) = Suc (requests u s)"
  by (simp add: requests_def log_def)

lemma requests_log_other [simp]: "e \<noteq> EvFetch u \<Longrightarrow> requests u (log e s) = requests u s"
  by (simp add: requests_def log_def)

lemma requests_retried [simp]: "requests u (retried u k s) = requests u s + k"
  by (induction k) (simp_all add: requests_def retried_def)

lemma retried_0 [simp]: "retried u 0 s = s"
  by (simp add: retried_def)

lemma retried_Suc: "retried u k (log (EvSleep 2000) (log (EvFetch u) s)) = retried u (Suc k) s"
  by (simp add: retried_def log_def)

lemma attempt_Retry_nonempty: "attempt env u m c sz n = Retry r \<Longrightarrow> r \<noteq> []"
  by (auto simp: attempt_def split: sum.splits if_splits)

lemma loop_step_Retry:
  assumes "retries < maxDownloadRetries"
    and "attempt env u m c sz (requests u s) = Retry r"
  shows "\<exists>b'. download_loop env u m c sz retries le b s =
           download_loop env u m c sz (Suc retries) (Some r) b' (retried u 1 s)"
  using assms
  by (subst download_loop.simps)
     (auto simp: attempt_def fetch_def sleep_def retried_def log_def split: sum.splits if_splits)

lemma loop_step_Accepted:
  assumes "retries < maxDownloadRetries"
    and "attempt env u m c sz (requests u s) = Accepted buf"
  shows "download_loop env u m c sz retries le b s = (Inr (None, Some buf), log (EvFetch u) s)"
  using assms
  by (subst download_loop.simps)
     (auto simp: attempt_def fetch_def split: sum.splits if_splits)

lemma loop_step_Raised:
  assumes "retries < maxDownloadRetries"
    and "attempt env u m c sz (requests u s) = Raised e"
  shows "download_loop env u m c sz retries le b s = (Inl e, log (EvFetch u) s)"
  using assms
  by (subst download_loop.simps)
     (auto simp: attempt_def fetch_def split: sum.splits if_splits)

lemma loop_exit:
  "\<not> retries < maxDownloadRetries \<Longrightarrow>
     download_loop env u m c sz retries le b s = (Inr (le, b), s)"
  by (subst download_loop.simps) simp

lemma loop_retries:
  assumes "retries + k \<le> maxDownloadRetries"
    and "\<forall>i<k. \<exists>r. attempt env u m c sz (requests u s + i) = Retry r"
  shows "\<exists>le' b'. download_loop env u m c sz retries le b s =
            download_loop env u m c sz (retries + k) le' b' (retried u k s)
          \<and> (if k = 0 then le' = le
               else attempt env u m c sz (requests u s + (k - 1)) = Retry (the le') \<and> le' \<noteq> None)"
  using assms
proof (induction k arbitrary: retries le b s)
  case 0
  then show ?case by auto
next
  case (Suc k)
  from Suc.prems(2) obtain r where r: "attempt env u m c sz (requests u s) = Retry r"
    by (metis add.right_neutral zero_less_Suc)
  from Suc.prems(1) have lt: "retries < maxDownloadRetries" by simp
  from loop_step_Retry[OF lt r] obtain b1 where
    st: "download_loop env u m c sz retries le b s =
           download_loop env u m c sz (Suc retries) (Some r) b1 (retried u 1 s)"
    by blast
  have pre: "\<forall>i<k. \<exists>r. attempt env u m c sz (requests u (retried u 1 s) + i) = Retry r"
    using Suc.prems(2) by (auto simp: less_Suc_eq_0_disj) 
  have le1: "Suc retries + k \<le> maxDownloadRetries" using Suc.prems(1) by simp
  from Suc.IH[OF le1 pre, of "Some r" b1] obtain le' b' where
    ih: "download_loop env u m c sz (Suc retries) (Some r) b1 (retried u 1 s) =
            download_loop env u m c sz (Suc retries + k) le' b' (retried u k (retried u 1 s))"
        "(if k = 0 then le' = Some r
               else attempt env u m c sz (requests u (retried u 1 s) + (k - 1)) = Retry (the le') \<and> le' \<noteq> None)"
    by blast
  have comb: "retried u k (retried u 1 s) = retried u (Suc k) s"
    by (simp add: retried_def)
  show ?case
    apply (rule exI[of _ le'], rule exI[of _ b'])
    using st ih r comb by (auto split: if_splits)
qed

lemma probe_cases:
  "probe env p m c sz s =
     (case stat_fault env p of
        Some cd \<Rightarrow> (if cd = ''ENOENT'' then Inr False else Inl (SystemError cd), log (EvStat p) s)
      | None \<Rightarrow>
         (case files s p of
            None \<Rightarrow> (Inr False, log (EvStat p) s)
          | Some b \<Rightarrow>
              if length b = sz then
                (case read_fault env p of
                   Some cd \<Rightarrow> (Inl (SystemError cd), log (EvRead p) (log (EvStat p) s))
                 | None \<Rightarrow> (Inr (createHash env m b = c), log (EvRead p) (log (EvStat p) s)))
              else (Inr False, log (EvStat p) s)))"
  by (simp add: probe_def stat_def calculateChecksum_def readFile_def log_def
      split: option.splits)

lemma probe_files [simp]: "files (snd (probe env p m c sz s)) = files s"
  by (simp add: probe_cases log_def split: option.splits)

lemma probe_requests [simp]: "requests u (snd (probe env p m c sz s)) = requests u s"
  by (simp add: probe_cases split: option.splits)

lemma loop_files [simp]:
  "files (snd (download_loop env u m c sz retries le b s)) = files s"
proof (induction "maxDownloadRetries - retries" arbitrary: retries le b s)
  case 0
  then show ?case by (simp add: loop_exit)
next
  case (Suc n)
  then have lt: "retries < maxDownloadRetries" by simp
  show ?case
  proof (cases "attempt env u m c sz (requests u s)")
    case (Accepted buf)
    then show ?thesis using lt by (simp add: loop_step_Accepted log_def)
  next
    case (Raised e)
    then show ?thesis using lt by (simp add: loop_step_Raised log_def)
  next
    case (Retry r)
    from loop_step_Retry[OF lt Retry, of le b] obtain b' where
      st: "download_loop env u m c sz retries le b s =
         download_loop env u m c sz (Suc retries) (Some r) b' (retried u 1 s)" by blast
    have "n = maxDownloadRetries - Suc retries" using Suc.hyps(2) by simp
    from Suc.hyps(1)[OF this] show ?thesis by (simp add: st retried_def)
  qed
qed

lemma loop_trace:
  "\<exists>evs. trace (snd (download_loop env u m c sz retries le b s)) = trace s @ evs
      \<and> set evs \<subseteq> {EvFetch u, EvSleep 2000}
      \<and> (retries < maxDownloadRetries \<longrightarrow> EvFetch u \<in> set evs)
      \<and> length (filter (\<lambda>e. e = EvFetch u) evs) \<le> maxDownloadRetries - retries"
proof (induction "maxDownloadRetries - retries" arbitrary: retries le b s)
  case 0
  then show ?case by (simp add: loop_exit)
next
  case (Suc n)
  then have lt: "retries < maxDownloadRetries" by simp
  show ?case
  proof (cases "attempt env u m c sz (requests u s)")
    case (Accepted buf)
    then show ?thesis using lt by (simp add: loop_step_Accepted log_def)
  next
    case (Raised e)
    then show ?thesis using lt by (simp add: loop_step_Raised log_def)
  next
    case (Retry r)
    from loop_step_Retry[OF lt Retry, of le b] obtain b' where
      st: "download_loop env u m c sz retries le b s =
         download_loop env u m c sz (Suc retries) (Some r) b' (retried u 1 s)" by blast
    have "n = maxDownloadRetries - Suc retries" using Suc.hyps(2) by simp
    from Suc.hyps(1)[OF this, of "Some r" b' "retried u 1 s"] obtain evs where
      e: "trace (snd (download_loop env u m c sz (Suc retries) (Some r) b' (retried u 1 s)))
             = trace (retried u 1 s) @ evs"
        "set evs \<subseteq> {EvFetch u, EvSleep 2000}"
        "length (filter (\<lambda>e. e = EvFetch u) evs) \<le> maxDownloadRetries - Suc retries"
      by blast
    show ?thesis
      apply (rule exI[of _ "[EvFetch u, EvSleep 2000] @ evs"])
      using e st lt by (simp add: retried_def)
  qed
qed

lemma loop_result:
  assumes "download_loop env u m c sz retries le b s = (Inr (le', b'), s')"
  shows "(le' = le \<and> b' = b \<and> \<not> retries < maxDownloadRetries)
       \<or> (le' = None \<and> (\<exists>buf. b' = Some buf \<and> length buf = sz \<and> createHash env m buf = c))
       \<or> (\<exists>r. le' = Some r \<and> r \<noteq> [])"
  using assms
proof (induction "maxDownloadRetries - retries" arbitrary: retries le b s)
  case 0
  then show ?case by (simp add: loop_exit)
next
  case (Suc n)
  then have lt: "retries < maxDownloadRetries" by simp
  show ?case
  proof (cases "attempt env u m c sz (requests u s)")
    case (Accepted buf)
    then show ?thesis using lt Suc.prems
      by (auto simp add: loop_step_Accepted attempt_def split: sum.splits if_splits)
  next
    case (Raised e)
    then show ?thesis using lt Suc.prems by (simp add: loop_step_Raised log_def)
  next
    case (Retry r)
    from loop_step_Retry[OF lt Retry, of le b] obtain b1 where
      st: "download_loop env u m c sz retries le b s =
         download_loop env u m c sz (Suc retries) (Some r) b1 (retried u 1 s)" by blast
    have n: "n = maxDownloadRetries - Suc retries" using Suc.hyps(2) by simp
    have "download_loop env u m c sz (Suc retries) (Some r) b1 (retried u 1 s) = (Inr (le', b'), s')"
      using st Suc.prems by simp
    from Suc.hyps(1)[OF n this] attempt_Retry_nonempty[OF Retry] show ?thesis by auto
  qed
qed

lemma store_cases:
  "store env p (Some buf) s =
     (case mkdir_fault env (dirname p) of
        Some cd \<Rightarrow> (Inl (SystemError cd), log (EvMkdir (dirname p)) s)
      | None \<Rightarrow>
          (case write_fault env p of
             None \<Rightarrow> (Inr True, (log (EvWrite p buf) (log (EvMkdir (dirname p)) s))
                          \<lparr>files := (files s)(p \<mapsto> buf)\<rparr>)
           | Some (OpenFailed cd) \<Rightarrow>
               (Inl (SystemError cd), log (EvWrite p buf) (log (EvMkdir (dirname p)) s))
           | Some (WriteFailed cd n) \<Rightarrow>
               (Inl (SystemError cd), (log (EvWrite p buf) (log (EvMkdir (dirname p)) s))
                          \<lparr>files := (files s)(p \<mapsto> take n buf)\<rparr>)))"
  by (simp add: store_def mkdir_def writeFile_def log_def Let_def
      split: option.splits write_failure.splits)


lemma dic_accepted:
  assumes "probe env p m c sz s = (Inr False, s1)"
    and "n < maxDownloadRetries"
    and "\<forall>i<n. \<exists>r. attempt env u m c sz (requests u s1 + i) = Retry r"
    and "attempt env u m c sz (requests u s1 + n) = Accepted buf"
  shows "downloadIfChanged env p u m c sz s =
           store env p (Some buf) (log (EvFetch u) (retried u n s1))"
proof -
  from loop_retries[of 0 n env u m c sz s1 None None] assms(2,3) obtain le' b' where
    l: "download_loop env u m c sz 0 None None s1 =
          download_loop env u m c sz n le' b' (retried u n s1)"
    by auto
  have "download_loop env u m c sz n le' b' (retried u n s1) =
          (Inr (None, Some buf), log (EvFetch u) (retried u n s1))"
    using assms(2,4) by (intro loop_step_Accepted) simp_all
  with l assms(1) show ?thesis by (simp add: downloadIfChanged_def)
qed

lemma dic_raised:
  assumes "probe env p m c sz s = (Inr False, s1)"
    and "n < maxDownloadRetries"
    and "\<forall>i<n. \<exists>r. attempt env u m c sz (requests u s1 + i) = Retry r"
    and "attempt env u m c sz (requests u s1 + n) = Raised e"
  shows "downloadIfChanged env p u m c sz s = (Inl e, log (EvFetch u) (retried u n s1))"
proof -
  from loop_retries[of 0 n env u m c sz s1 None None] assms(2,3) obtain le' b' where
    l: "download_loop env u m c sz 0 None None s1 =
          download_loop env u m c sz n le' b' (retried u n s1)"
    by auto
  have "download_loop env u m c sz n le' b' (retried u n s1) =
          (Inl e, log (EvFetch u) (retried u n s1))"
    using assms(2,4) by (intro loop_step_Raised) simp_all
  with l assms(1) show ?thesis by (simp add: downloadIfChanged_def)
qed

lemma dic_exhausted:
  assumes "probe env p m c sz s = (Inr False, s1)"
    and "\<forall>i<maxDownloadRetries. \<exists>r. attempt env u m c sz (requests u s1 + i) = Retry r"
    and "attempt env u m c sz (requests u s1 + (maxDownloadRetries - 1)) = Retry r"
  shows "downloadIfChanged env p u m c sz s =
           (Inl (DownloadFailed u r), retried u maxDownloadRetries s1)"
proof -
  from loop_retries[of 0 maxDownloadRetries env u m c sz s1 None None] assms(2) obtain le' b' where
    l: "download_loop env u m c sz 0 None None s1 =
          download_loop env u m c sz maxDownloadRetries le' b' (retried u maxDownloadRetries s1)"
    and r: "attempt env u m c sz (requests u s1 + (maxDownloadRetries - 1)) = Retry (the le')"
           "le' \<noteq> None"
    by (auto simp: maxDownloadRetries_def)
  from r assms(3) have le': "le' = Some r" by auto
  have "r \<noteq> []" using assms(3) by (rule attempt_Retry_nonempty)
  with l le' assms(1) show ?thesis
    by (simp add: downloadIfChanged_def loop_exit)
qed


text \<open>
  Claim C9. When a download is needed and, after \<open>n\<close> retried failures
  (\<open>n\<close> below the budget of five), the request itself fails at the transport level
  with \<open>e\<close>, the call ends with exactly \<open>e\<close>: not wrapped, no pause and no
  further request after it, whatever is left of the budget.
\<close>

theorem transport_failure_not_retried:
  assumes "probe env p m c sz s = (Inr False, s1)"
    and "n < maxDownloadRetries"
    and "\<forall>i<n. \<exists>r. attempt env u m c sz (requests u s1 + i) = Retry r"
    and "net env u (requests u s1 + n) = Inl e"
  shows "downloadIfChanged env p u m c sz s = (Inl e, log (EvFetch u) (retried u n s1))"
proof -
  have "attempt env u m c sz (requests u s1 + n) = Raised e"
    using assms(4) by (simp add: attempt_def)
  with assms(1-3) show ?thesis by (rule dic_raised)
qed


theorem transport_failure_not_retried_witness:
  "downloadIfChanged flaky_env ''assets/objects/he/hello'' ''https://origin/he/hello''
      ''sha1'' ''hello'' 5 empty_world
   = (Inl (TypeError ''fetch failed''),
      \<lparr>files = Map.empty,
       trace = [EvStat ''assets/objects/he/hello'', EvFetch ''https://origin/he/hello'',
                EvSleep 2000, EvFetch ''https://origin/he/hello'']\<rparr>)"
proof -
  let ?p = "''assets/objects/he/hello''"
  let ?u = "''https://origin/he/hello''"
  let ?s1 = "log (EvStat ?p) empty_world"
  have h1: "probe flaky_env ?p ''sha1'' ''hello'' 5 empty_world = (Inr False, ?s1)"
    by (simp add: probe_cases flaky_env_def quiet_env_def empty_world_def)
  have h2: "(1::nat) < maxDownloadRetries" by (simp add: maxDownloadRetries_def)
  have r0: "requests ?u ?s1 = 0" by (simp add: empty_world_def requests_def log_def)
  have h3: "\<forall>i<(1::nat). \<exists>r. attempt flaky_env ?u ''sha1'' ''hello'' 5 (requests ?u ?s1 + i) = Retry r"
    by (simp add: r0 attempt_def flaky_env_def)
  have h4: "net flaky_env ?u (requests ?u ?s1 + 1) = Inl (TypeError ''fetch failed'')"
    by (simp add: r0 flaky_env_def)
  from transport_failure_not_retried[OF h1 h2 h3 h4]
  show ?thesis by (simp add: retried_def log_def empty_world_def)
qed

lemma map_of_set_property:
  "map_of (set_property k v obj) = (map_of obj)(k \<mapsto> v)"
proof (cases "map_of obj k = None")
  case True
  then show ?thesis by (auto simp: set_property_def map_add_def fun_eq_iff split: option.splits)
next
  case False
  have "map_of (map (\<lambda>(k', v'). if k' = k then (k', v) else (k', v')) obj) k' =
        (if k' = k then map_option (\<lambda>_. v) (map_of obj k) else map_of obj k')" for k'
    by (induction obj) auto
  with False show ?thesis by (auto simp: set_property_def fun_eq_iff)
qed

lemma keys_set_property:
  "map fst (set_property k v obj) = (if map_of obj k = None then map fst obj @ [k] else map fst obj)"
proof -
  have "map fst (map (\<lambda>(k', v'). if k' = k then (k', v) else (k', v')) obj) = map fst obj"
    by (induction obj) auto
  then show ?thesis by (simp add: set_property_def)
qed

lemma distinct_set_property:
  "distinct (map fst obj) \<Longrightarrow> distinct (map fst (set_property k v obj))"
  by (auto simp: keys_set_property map_of_eq_None_iff)

lemma foldl_set_property_distinct:
  "distinct (map fst acc) \<Longrightarrow>
     distinct (map fst (foldl (\<lambda>obj (k, v). set_property k v obj) acc es))"
  by (induction es arbitrary: acc) (auto simp: distinct_set_property)

lemma foldl_set_property_map_of:
  "map_of (foldl (\<lambda>obj (k, v). set_property k v obj) acc es) = map_of acc ++ map_of (rev es)"
  by (induction es arbitrary: acc) (auto simp: map_of_set_property fun_eq_iff map_add_def split: option.splits)

lemma distinct_fromEntries: "distinct (map fst (Object_fromEntries es))"
  by (simp add: Object_fromEntries_def foldl_set_property_distinct)

lemma map_of_fromEntries: "map_of (Object_fromEntries es) = map_of (rev es)"
  by (simp add: Object_fromEntries_def foldl_set_property_map_of)

lemma set_own_properties [simp]: "set (own_properties obj) = set obj"
  by (auto simp: own_properties_def)

lemma distinct_own_properties:
  assumes "distinct (map fst obj)"
  shows "distinct (map fst (own_properties obj))"
proof -
  from assms have d: "distinct obj" and i: "inj_on fst (set obj)"
    by (simp_all add: distinct_map)
  have "distinct (own_properties obj)"
    using d by (auto simp: own_properties_def)
  moreover have "inj_on fst (set (own_properties obj))" using i by simp
  ultimately show ?thesis by (simp add: distinct_map)
qed

lemma probe_effect:
  "\<exists>pe. trace (snd (probe env p m c sz s)) = trace s @ pe
     \<and> set pe \<subseteq> {EvStat p, EvRead p}
     \<and> (fst (probe env p m c sz s) = Inr True \<longrightarrow> locally_correct env p m c sz s)"
proof -
  let ?pe = "drop (length (trace s)) (trace (snd (probe env p m c sz s)))"
  show ?thesis
    by (rule exI[of _ ?pe])
       (auto simp: probe_cases log_def locally_correct_def split: option.splits if_splits)
qed

lemma store_effect:
  "\<exists>se. trace (snd (store env p b s)) = trace s @ se
     \<and> set se \<subseteq> {EvMkdir (dirname p)} \<union> {e. \<exists>buf. e = EvWrite p buf}
     \<and> length (filter is_write se) \<le> 1
     \<and> (\<forall>q. q \<noteq> p \<longrightarrow> files (snd (store env p b s)) q = files s q)
     \<and> (\<forall>x. fst (store env p b s) = Inr x \<longrightarrow>
           x \<and> b \<noteq> None \<and> files (snd (store env p b s)) p = b)"
proof -
  let ?se = "drop (length (trace s)) (trace (snd (store env p b s)))"
  show ?thesis
    by (rule exI[of _ ?se])
       (auto simp: store_def mkdir_def writeFile_def log_def Let_def
             split: option.splits write_failure.splits)
qed

lemma dic_effect:
  "\<exists>evs. trace (snd (downloadIfChanged env p u m c sz s)) = trace s @ evs
     \<and> (\<forall>e\<in>set evs. \<not> is_start e \<and> \<not> is_done e)
     \<and> (\<forall>e\<in>set evs. is_write e \<longrightarrow> event_path e = p)
     \<and> (\<forall>e\<in>set evs. is_fetch e \<longrightarrow> e = EvFetch u)
     \<and> length (filter is_write evs) \<le> 1
     \<and> (\<forall>q. q \<noteq> p \<longrightarrow> files (snd (downloadIfChanged env p u m c sz s)) q = files s q)
     \<and> (\<forall>x. fst (downloadIfChanged env p u m c sz s) = Inr x \<longrightarrow>
           locally_correct env p m c sz (snd (downloadIfChanged env p u m c sz s)))
     \<and> (fst (downloadIfChanged env p u m c sz s) = Inr False \<longrightarrow>
           locally_correct env p m c sz s
           \<and> files (snd (downloadIfChanged env p u m c sz s)) = files s
           \<and> (\<forall>e\<in>set evs. \<not> is_write e \<and> \<not> is_fetch e))"
proof -
  obtain r1 s1 where pr: "probe env p m c sz s = (r1, s1)" by (cases "probe env p m c sz s")
  from probe_effect[of env p m c sz s] pr obtain pe where
    pe: "trace s1 = trace s @ pe" "set pe \<subseteq> {EvStat p, EvRead p}"
        "r1 = Inr True \<longrightarrow> locally_correct env p m c sz s"
    by auto
  have f1: "files s1 = files s" using probe_files[of env p m c sz s] pr by simp
  have nwp: "filter is_write pe = []" using pe(2) by (auto simp: filter_empty_conv)
  show ?thesis
  proof (cases r1)
    case (Inl e)
    then have d: "downloadIfChanged env p u m c sz s = (Inl e, s1)"
      using pr by (simp add: downloadIfChanged_def)
    show ?thesis
      by (rule exI[of _ pe]) (use d pe f1 nwp in auto)
  next
    case (Inr ok1)
    show ?thesis
    proof (cases ok1)
      case True
      then have d: "downloadIfChanged env p u m c sz s = (Inr False, s1)"
        using pr Inr by (simp add: downloadIfChanged_def)
      show ?thesis
        by (rule exI[of _ pe]) (use d pe f1 nwp True Inr in \<open>auto simp: locally_correct_def\<close>)
    next
      case False
      obtain r2 s2 where l: "download_loop env u m c sz 0 None None s1 = (r2, s2)"
        by (cases "download_loop env u m c sz 0 None None s1")
      from loop_trace[of env u m c sz 0 None None s1] l obtain le where
        le: "trace s2 = trace s1 @ le" "set le \<subseteq> {EvFetch u, EvSleep 2000}" "EvFetch u \<in> set le"
        by (auto simp: maxDownloadRetries_def)
      have nwl: "filter is_write le = []" using le(2) by (auto simp: filter_empty_conv)
      have f2: "files s2 = files s"
      proof -
        have "files (snd (download_loop env u m c sz 0 None None s1)) = files s1" by simp
        then show ?thesis unfolding l by (simp add: f1)
      qed
      show ?thesis
      proof (cases r2)
        case (Inl e)
        then have d: "downloadIfChanged env p u m c sz s = (Inl e, s2)"
          using pr l Inr False by (simp add: downloadIfChanged_def)
        show ?thesis
          by (rule exI[of _ "pe @ le"]) (use d pe le f2 nwp nwl in auto)
      next
        case r2: (Inr lb)
        obtain lastError buffer where lb: "lb = (lastError, buffer)" by (cases lb)
        from loop_result[of env u m c sz 0 None None s1 lastError buffer s2] l r2 lb
        consider (ok) buf where "lastError = None" "buffer = Some buf" "length buf = sz"
            "createHash env m buf = c"
          | (fail) r where "lastError = Some r" "r \<noteq> []"
          by (auto simp: maxDownloadRetries_def)
        then show ?thesis
        proof cases
          case fail
          then have d: "downloadIfChanged env p u m c sz s = (Inl (DownloadFailed u r), s2)"
            using pr l Inr False r2 lb by (simp add: downloadIfChanged_def)
          show ?thesis
            by (rule exI[of _ "pe @ le"]) (use d pe le f2 nwp nwl in auto)
        next
          case ok
          then have d: "downloadIfChanged env p u m c sz s = store env p (Some buf) s2"
            using pr l Inr False r2 lb by (simp add: downloadIfChanged_def)
          from store_effect[of env p "Some buf" s2] obtain se where
            se: "trace (snd (store env p (Some buf) s2)) = trace s2 @ se"
              "set se \<subseteq> {EvMkdir (dirname p)} \<union> {e. \<exists>buf. e = EvWrite p buf}"
              "length (filter is_write se) \<le> 1"
              "\<forall>q. q \<noteq> p \<longrightarrow> files (snd (store env p (Some buf) s2)) q = files s2 q"
              "\<forall>x. fst (store env p (Some buf) s2) = Inr x \<longrightarrow>
                 x \<and> files (snd (store env p (Some buf) s2)) p = Some buf"
            by auto
          show ?thesis
            apply (rule exI[of _ "pe @ le @ se"])
            apply (intro conjI)
            subgoal using d pe le se by simp
            subgoal using pe(2) le(2) se(2) by auto
            subgoal using pe(2) le(2) se(2) by auto
            subgoal using pe(2) le(2) se(2) by auto
            subgoal using nwp nwl se(3) by simp
            subgoal using d se(4) f2 by simp
            subgoal using d se(5) ok by (auto simp: locally_correct_def)
            subgoal using d se(5) by auto
            done
        qed
      qed
    qed
  qed
qed

lemma quiet_dic: "quiet (p, downloadIfChanged env p u m c sz)"
proof -
  have "\<exists>evs. trace (snd (downloadIfChanged env p u m c sz s)) = trace s @ evs
                \<and> (\<forall>e\<in>set evs. \<not> is_start e \<and> \<not> is_done e)" for s
    using dic_effect[of env p u m c sz s] by blast
  then show ?thesis by (simp add: quiet_def)
qed

lemma quiet_download_object: "quiet (download_object env folder object)"
  by (simp add: download_object_def quiet_dic)

lemma trace_start_all:
  "trace (start_all tasks s) = trace s @ map (\<lambda>t. EvStart (fst t)) tasks"
  unfolding start_all_def by (induction tasks arbitrary: s) (simp_all add: log_def)

lemma files_start_all [simp]: "files (start_all tasks s) = files s"
  unfolding start_all_def by (induction tasks arbitrary: s) (simp_all add: log_def)

lemma settle_all_Cons_snd:
  "snd (settle_all (t # ts) s) =
     snd (settle_all ts (log (EvDone (fst t) (fst (snd t s))) (snd (snd t s))))"
  by (simp split: prod.splits)

lemma settle_all_Cons_fst:
  "fst (settle_all (t # ts) s) =
     fst (snd t s) # fst (settle_all ts (log (EvDone (fst t) (fst (snd t s))) (snd (snd t s))))"
  by (simp split: prod.splits)

lemma Promise_all_snd: "snd (Promise_all tasks s) = snd (settle_all tasks (start_all tasks s))"
  by (simp add: Promise_all_def split: prod.splits)

lemma Promise_all_fst:
  "fst (Promise_all tasks s) = all_fulfilled (fst (settle_all tasks (start_all tasks s)))"
  by (simp add: Promise_all_def split: prod.splits)

lemma settle_all_trace:
  assumes "\<forall>t\<in>set tasks. quiet t"
  shows "\<exists>body. trace (snd (settle_all tasks s)) = trace s @ body
           \<and> (\<forall>e\<in>set body. \<not> is_start e)
           \<and> map event_path (filter is_done body) = map fst tasks"
  using assms
proof (induction tasks arbitrary: s)
  case Nil
  then show ?case by simp
next
  case (Cons t ts)
  define r where "r = fst (snd t s)"
  define s1 where "s1 = snd (snd t s)"
  from Cons.prems have "quiet t" by simp
  then obtain evs where evs: "trace s1 = trace s @ evs" "\<forall>e\<in>set evs. \<not> is_start e \<and> \<not> is_done e"
    unfolding quiet_def s1_def by blast
  let ?s1 = "log (EvDone (fst t) r) s1"
  from Cons.IH[of ?s1] Cons.prems obtain body where
    b: "trace (snd (settle_all ts ?s1)) = trace ?s1 @ body" "\<forall>e\<in>set body. \<not> is_start e"
       "map event_path (filter is_done body) = map fst ts"
    by auto
  have nd: "filter is_done evs = []" using evs(2) by (auto simp: filter_empty_conv)
  have sn: "snd (settle_all (t # ts) s) = snd (settle_all ts ?s1)"
    by (simp only: settle_all_Cons_snd r_def s1_def)
  show ?case
    apply (rule exI[of _ "evs @ EvDone (fst t) r # body"])
    unfolding sn using evs b nd by (auto simp add: log_def)
qed

lemma Promise_all_trace:
  assumes "\<forall>t\<in>set tasks. quiet t"
  shows "\<exists>body. trace (snd (Promise_all tasks s)) = trace s @ map (\<lambda>t. EvStart (fst t)) tasks @ body
           \<and> (\<forall>e\<in>set body. \<not> is_start e)
           \<and> map event_path (filter is_done body) = map fst tasks"
proof -
  from settle_all_trace[OF assms, of "start_all tasks s"] obtain body where
    b: "trace (snd (settle_all tasks (start_all tasks s))) = trace (start_all tasks s) @ body"
       "\<forall>e\<in>set body. \<not> is_start e"
       "map event_path (filter is_done body) = map fst tasks"
    by blast
  show ?thesis
    apply (rule exI[of _ body])
    unfolding Promise_all_snd using b by (simp add: trace_start_all)
qed

lemma batched_rest_start: "batched pss evs \<Longrightarrow> evs = [] \<or> is_start (hd evs)"
proof (cases pss)
  case Nil
  assume "batched pss evs" with Nil show ?thesis by simp
next
  case (Cons ps pss')
  assume "batched pss evs"
  with Cons have "ps \<noteq> []" "takeWhile is_start evs = map EvStart ps" by simp_all
  then have "takeWhile is_start evs \<noteq> []" by simp
  then show ?thesis by (cases evs) (auto split: if_splits)
qed

lemma batched_Cons:
  assumes "ps \<noteq> []" and "\<forall>e\<in>set body. \<not> is_start e"
    and "map event_path (filter is_done body) = ps" and "batched pss rest"
  shows "batched (ps # pss) (map EvStart ps @ body @ rest)"
proof -
  from batched_rest_start[OF assms(4)] have r: "rest = [] \<or> is_start (hd rest)" .
  have body_ne: "body \<noteq> []" using assms(1,3) by auto
  then obtain b bs where bb: "body = b # bs" by (cases body) auto
  with assms(2) have nb: "\<not> is_start b" by simp
  have st: "\<And>x. x \<in> set (map EvStart ps) \<Longrightarrow> is_start x" by auto
  have t1: "takeWhile is_start (map EvStart ps @ body @ rest) = map EvStart ps"
    using takeWhile_append2[of "map EvStart ps" is_start "body @ rest", OF st] nb bb by simp
  have d1: "dropWhile is_start (map EvStart ps @ body @ rest) = body @ rest"
    using dropWhile_append2[of "map EvStart ps" is_start "body @ rest", OF st] nb bb by simp
  have nst: "\<And>x. x \<in> set body \<Longrightarrow> \<not> is_start x" using assms(2) by auto
  have t2: "takeWhile (\<lambda>e. \<not> is_start e) (body @ rest) = body"
    using takeWhile_append2[of body "\<lambda>e. \<not> is_start e" rest, OF nst] r by (cases rest) auto
  have d2: "dropWhile (\<lambda>e. \<not> is_start e) (body @ rest) = rest"
    using dropWhile_append2[of body "\<lambda>e. \<not> is_start e" rest, OF nst] r by (cases rest) auto
  show ?thesis using assms t1 d1 t2 d2 by simp
qed





lemma batched_decompose:
  assumes "batched (ps # pss) evs"
  shows "\<exists>body rest. evs = map EvStart ps @ body @ rest \<and> (\<forall>e\<in>set body. \<not> is_start e)
           \<and> map event_path (filter is_done body) = ps \<and> batched pss rest"
proof -
  let ?body = "takeWhile (\<lambda>e. \<not> is_start e) (dropWhile is_start evs)"
  let ?rest = "dropWhile (\<lambda>e. \<not> is_start e) (dropWhile is_start evs)"
  have "evs = takeWhile is_start evs @ ?body @ ?rest" by simp
  moreover have "\<forall>e\<in>set ?body. \<not> is_start e" by (auto dest: set_takeWhileD)
  ultimately show ?thesis using assms by (metis batched.simps(2))
qed


lemma length_slice: "length (slice xs i (i + n)) = min n (length xs - i)"
  by (simp add: slice_def)

lemma chunks_from_concat: "concat (chunks_from xs i) = drop i xs"
proof (induction xs i rule: chunks_from.induct)
  case (1 xs i)
  show ?case
  proof (cases "i < length xs")
    case True
    have "take maxConcurrency (drop i xs) @ drop (i + maxConcurrency) xs = drop i xs"
      by (metis add.commute append_take_drop_id drop_drop)
    with True 1 show ?thesis
      by (subst chunks_from.simps) (simp add: slice_def)
  next
    case False
    then show ?thesis by (subst chunks_from.simps) simp
  qed
qed



declare batched.simps [simp del]

lemma download_chunks_batched:
  "\<exists>k evs. trace (snd (download_chunks env folder objects i n s)) = trace s @ evs
     \<and> k \<le> length (chunks_from objects i)
     \<and> batched (map (map (\<lambda>object. object_path folder (hash object)))
                  (take k (chunks_from objects i))) evs
     \<and> ((\<exists>x. fst (download_chunks env folder objects i n s) = Inr x) \<longrightarrow>
           k = length (chunks_from objects i))"
proof (induction env folder objects i n s rule: download_chunks.induct)
  case (1 env folder objects i n s)
  show ?case
  proof (cases "i < length objects")
    case False
    then have "download_chunks env folder objects i n s = (Inr n, s)"
      by (subst download_chunks.simps) simp
    moreover from False have "chunks_from objects i = []"
      by (subst chunks_from.simps) simp
    ultimately show ?thesis by (simp add: batched.simps)
  next
    case True
    let ?chunk = "slice objects i (i + maxConcurrency)"
    let ?tasks = "map (download_object env folder) ?chunk"
    let ?ps = "map (\<lambda>object. object_path folder (hash object)) ?chunk"
    have cf: "chunks_from objects i = ?chunk # chunks_from objects (i + maxConcurrency)"
      using True by (subst chunks_from.simps) simp
    have ne: "?ps \<noteq> []" using True by (simp add: slice_def maxConcurrency_def)
    obtain r1 s1 where pa: "Promise_all ?tasks s = (r1, s1)" by (cases "Promise_all ?tasks s")
    have q: "\<forall>t\<in>set ?tasks. quiet t" by (auto simp: quiet_download_object)
    have fs: "map fst ?tasks = ?ps" "map (\<lambda>t. EvStart (fst t)) ?tasks = map EvStart ?ps"
      by (simp_all add: comp_def download_object_def)
    from Promise_all_trace[OF q, of s] obtain body where
      b0: "trace (snd (Promise_all ?tasks s)) = trace s @ map (\<lambda>t. EvStart (fst t)) ?tasks @ body"
         "\<forall>e\<in>set body. \<not> is_start e"
         "map event_path (filter is_done body) = map fst ?tasks"
      by blast
    have b: "trace s1 = trace s @ map EvStart ?ps @ body" "\<forall>e\<in>set body. \<not> is_start e"
         "map event_path (filter is_done body) = ?ps"
      using b0 unfolding fs pa by simp_all
    show ?thesis
    proof (cases r1)
      case (Inl e)
      then have d: "download_chunks env folder objects i n s = (Inl e, s1)"
        using True pa by (subst download_chunks.simps) simp
      have "batched [] []" by (simp add: batched.simps)
      with ne b(2) b(3) have "batched [?ps] (map EvStart ?ps @ body @ [])"
        by (rule batched_Cons)
      then have bt: "batched (map (map (\<lambda>object. object_path folder (hash object)))
                  (take 1 (chunks_from objects i))) (map EvStart ?ps @ body)"
        unfolding cf by simp
      have tr: "trace (snd (download_chunks env folder objects i n s)) =
                  trace s @ map EvStart ?ps @ body"
        unfolding d using b(1) by simp
      have k1: "1 \<le> length (chunks_from objects i)" unfolding cf by simp
      have nr: "\<not> (\<exists>x. fst (download_chunks env folder objects i n s) = Inr x)"
        unfolding d by simp
      show ?thesis
        apply (rule exI[of _ 1], rule exI[of _ "map EvStart ?ps @ body"])
        using tr k1 bt nr by blast
    next
      case (Inr downloadResult)
      let ?n = "n + length (filter (\<lambda>downloaded. downloaded) downloadResult)"
      have d: "download_chunks env folder objects i n s =
                 download_chunks env folder objects (i + maxConcurrency) ?n s1"
        using True pa Inr by (subst download_chunks.simps) simp
      from "1.IH"[OF True pa[symmetric] Inr] obtain k evs where
        ih: "trace (snd (download_chunks env folder objects (i + maxConcurrency) ?n s1)) = trace s1 @ evs"
          "k \<le> length (chunks_from objects (i + maxConcurrency))"
          "batched (map (map (\<lambda>object. object_path folder (hash object)))
                  (take k (chunks_from objects (i + maxConcurrency)))) evs"
          "(\<exists>x. fst (download_chunks env folder objects (i + maxConcurrency) ?n s1) = Inr x) \<longrightarrow>
             k = length (chunks_from objects (i + maxConcurrency))"
        by blast
      have "batched (?ps # map (map (\<lambda>object. object_path folder (hash object)))
                  (take k (chunks_from objects (i + maxConcurrency)))) (map EvStart ?ps @ body @ evs)"
        using ne b(2) b(3) ih(3) by (rule batched_Cons)
      then have bt: "batched (map (map (\<lambda>object. object_path folder (hash object)))
                  (take (Suc k) (chunks_from objects i))) (map EvStart ?ps @ body @ evs)"
        unfolding cf by simp
      have tr: "trace (snd (download_chunks env folder objects i n s)) =
                  trace s @ map EvStart ?ps @ body @ evs"
        unfolding d ih(1) using b(1) by simp
      have k1: "Suc k \<le> length (chunks_from objects i)" unfolding cf using ih(2) by simp
      have nr: "(\<exists>x. fst (download_chunks env folder objects i n s) = Inr x) \<longrightarrow>
                  Suc k = length (chunks_from objects i)"
        unfolding d cf using ih(4) by simp
      show ?thesis
        apply (rule exI[of _ "Suc k"], rule exI[of _ "map EvStart ?ps @ body @ evs"])
        using tr k1 bt nr by blast
    qed
  qed
qed

lemma fromEntries_mem:
  "(k, v) \<in> set (Object_fromEntries es) \<longleftrightarrow> map_of (rev es) k = Some v"
  using distinct_fromEntries[of es] map_of_fromEntries[of es]
  by (metis map_of_eq_Some_iff)

lemma map_of_rev_keyed:
  "map_of (rev (map (\<lambda>x. (f x, x)) xs)) k = Some v \<longleftrightarrow>
     (\<exists>ys zs. xs = ys @ v # zs \<and> f v = k \<and> k \<notin> f ` set zs)"
proof (induction xs rule: rev_induct)
  case Nil
  then show ?case by simp
next
  case (snoc x xs)
  show ?case
  proof (cases "f x = k")
    case True
    have "(\<exists>ys zs. xs @ [x] = ys @ v # zs \<and> f v = k \<and> k \<notin> f ` set zs) \<longleftrightarrow> v = x"
    proof
      assume "\<exists>ys zs. xs @ [x] = ys @ v # zs \<and> f v = k \<and> k \<notin> f ` set zs"
      then obtain ys zs where e: "xs @ [x] = ys @ v # zs" "k \<notin> f ` set zs" by blast
      show "v = x"
      proof (cases zs rule: rev_cases)
        case Nil
        with e(1) show ?thesis by simp
      next
        case (snoc zs' z)
        with e(1) have "z = x" by (metis append_assoc append_Cons last_snoc)
        with snoc e(2) True show ?thesis by simp
      qed
    next
      assume "v = x"
      then show "\<exists>ys zs. xs @ [x] = ys @ v # zs \<and> f v = k \<and> k \<notin> f ` set zs"
        using True by (intro exI[of _ xs] exI[of _ "[]"]) simp
    qed
    with True show ?thesis by auto
  next
    case False
    have "(\<exists>ys zs. xs @ [x] = ys @ v # zs \<and> f v = k \<and> k \<notin> f ` set zs) \<longleftrightarrow>
          (\<exists>ys zs. xs = ys @ v # zs \<and> f v = k \<and> k \<notin> f ` set zs)"
    proof
      assume "\<exists>ys zs. xs @ [x] = ys @ v # zs \<and> f v = k \<and> k \<notin> f ` set zs"
      then obtain ys zs where e: "xs @ [x] = ys @ v # zs" "f v = k" "k \<notin> f ` set zs" by blast
      show "\<exists>ys zs. xs = ys @ v # zs \<and> f v = k \<and> k \<notin> f ` set zs"
      proof (cases zs rule: rev_cases)
        case Nil
        with e False show ?thesis by simp
      next
        case (snoc zs' z)
        with e(1) have "xs = ys @ v # zs'" by (metis append_assoc append_Cons butlast_snoc)
        with e snoc show ?thesis by auto
      qed
    next
      assume "\<exists>ys zs. xs = ys @ v # zs \<and> f v = k \<and> k \<notin> f ` set zs"
      then obtain ys zs where "xs = ys @ v # zs" "f v = k" "k \<notin> f ` set zs" by blast
      then show "\<exists>ys zs. xs @ [x] = ys @ v # zs \<and> f v = k \<and> k \<notin> f ` set zs"
        using False by (intro exI[of _ ys] exI[of _ "zs @ [x]"]) auto
    qed
    with False snoc.IH show ?thesis by simp
  qed
qed

lemma keyed_properties:
  "(k, v) \<in> set (own_properties (Object_fromEntries (map (\<lambda>x. (f x, x)) xs))) \<longleftrightarrow>
     (\<exists>ys zs. xs = ys @ v # zs \<and> f v = k \<and> k \<notin> f ` set zs)"
  by (simp add: fromEntries_mem map_of_rev_keyed)

lemma keyed_values_keys:
  "map f (Object_values (Object_fromEntries (map (\<lambda>x. (f x, x)) xs))) =
   map fst (own_properties (Object_fromEntries (map (\<lambda>x. (f x, x)) xs)))"
proof -
  have "\<forall>(k, v)\<in>set (own_properties (Object_fromEntries (map (\<lambda>x. (f x, x)) xs))). f v = k"
    using keyed_properties[of _ _ f xs] by blast
  then show ?thesis by (auto simp: Object_values_def)
qed

lemma dedupe_distinct: "distinct (map hash (dedupe_objects m))"
  unfolding dedupe_objects_def keyed_values_keys
  by (intro distinct_own_properties distinct_fromEntries)

lemma dedupe_last:
  "object \<in> set (dedupe_objects m) \<longleftrightarrow>
     (\<exists>ys zs. Object_values m = ys @ object # zs \<and> hash object \<notin> hash ` set zs)"
proof -
  let ?obj = "own_properties (Object_fromEntries (map (\<lambda>x. (hash x, x)) (Object_values m)))"
  have "object \<in> set (dedupe_objects m) \<longleftrightarrow> (\<exists>k. (k, object) \<in> set ?obj)"
    by (force simp: dedupe_objects_def Object_values_def)
  also have "\<dots> \<longleftrightarrow> (\<exists>ys zs. Object_values m = ys @ object # zs \<and> hash object \<notin> hash ` set zs)"
    unfolding keyed_properties by auto
  finally show ?thesis .
qed

lemma dedupe_hashes: "hash ` set (dedupe_objects m) = hash ` set (Object_values m)"
proof (intro set_eqI iffI)
  fix h assume "h \<in> hash ` set (dedupe_objects m)"
  then show "h \<in> hash ` set (Object_values m)" by (auto simp: dedupe_last)
next
  fix h assume "h \<in> hash ` set (Object_values m)"
  then obtain x where x: "x \<in> set (Object_values m)" "hash x = h" by auto
  then have "\<exists>x\<in>set (Object_values m). hash x = h" by blast
  from split_list_last_prop[OF this]
  have "\<exists>ys z zs. Object_values m = ys @ z # zs \<and> hash z = h \<and> h \<notin> hash ` set zs"
    by (elim exE) (metis imageE)
  then obtain ys z zs where
    "Object_values m = ys @ z # zs" "hash z = h" "hash z \<notin> hash ` set zs" by blast
  then have "z \<in> set (dedupe_objects m)" unfolding dedupe_last by blast
  then show "h \<in> hash ` set (dedupe_objects m)" using \<open>hash z = h\<close> by blast
qed

lemma object_path_eq:
  "object_path folder h =
     (if folder = [] then ''objects'' else folder @ ''/objects'')
     @ (if h = [] then [] else ''/'' @ take 2 h @ ''/'' @ h)"
  by (simp add: object_path_def path_join_def)

lemma index_path_eq:
  "index_path folder ident =
     (if folder = [] then ''indexes'' else folder @ ''/indexes'') @ ''/'' @ ident @ ''.json''"
  by (simp add: index_path_def path_join_def)

lemma object_path_inj:
  assumes "object_path folder h1 = object_path folder h2"
  shows "h1 = h2"
proof -
  let ?suf = "\<lambda>h. if h = [] then [] else ''/'' @ take 2 h @ ''/'' @ h"
  from assms have e: "?suf h1 = ?suf h2" by (simp add: object_path_eq)
  show ?thesis
  proof (cases "h1 = [] \<or> h2 = []")
    case True
    with e show ?thesis by (auto split: if_splits)
  next
    case False
    with e have e2: "take 2 h1 @ ''/'' @ h1 = take 2 h2 @ ''/'' @ h2" by simp
    then have "length (take 2 h1 @ ''/'' @ h1) = length (take 2 h2 @ ''/'' @ h2)" by simp
    then have "length h1 = length h2" by (simp add: min_def split: if_splits)
    then have "length (take 2 h1) = length (take 2 h2)" by simp
    with e2 show ?thesis by (simp add: append_eq_append_conv)
  qed
qed

lemma index_path_inj: "index_path folder a = index_path folder b \<Longrightarrow> a = b"
  by (simp add: index_path_eq)

lemma index_path_not_object_path: "index_path folder a \<noteq> object_path folder h"
  by (auto simp: index_path_eq object_path_eq)

lemma download_object_job: "download_object env folder object = job_task env (object_job folder object)"
  by (simp add: download_object_def object_job_def)

lemma distinct_object_paths:
  assumes "distinct (map hash objects)"
  shows "distinct (map (\<lambda>object. fst (object_job folder object)) objects)"
proof -
  have inj: "inj_on (object_path folder) (set (map hash objects))"
    by (rule inj_onI) (rule object_path_inj)
  have d: "distinct (map (object_path folder) (map hash objects))"
    by (subst distinct_map) (intro conjI assms inj)
  have eq: "(\<lambda>object. fst (object_job folder object)) = object_path folder \<circ> hash"
    by (simp add: object_job_def fun_eq_iff)
  show ?thesis unfolding eq map_map[symmetric] by (rule d)
qed

lemma writes_at_append [simp]: "writes_at p (xs @ ys) = writes_at p xs + writes_at p ys"
  by (simp add: writes_at_def)

lemma writes_at_Cons_done [simp]: "writes_at p (EvDone q r # xs) = writes_at p xs"
  by (simp add: writes_at_def)

lemma writes_at_Nil [simp]: "writes_at p [] = 0"
  by (simp add: writes_at_def)

lemma job_effect:
  "\<exists>evs. trace (snd (snd (job_task env j) s)) = trace s @ evs
     \<and> (\<forall>e\<in>set evs. \<not> is_start e \<and> \<not> is_done e)
     \<and> (\<forall>q. q \<noteq> fst j \<longrightarrow> writes_at q evs = 0)
     \<and> writes_at (fst j) evs \<le> 1
     \<and> (\<forall>q. q \<noteq> fst j \<longrightarrow> files (snd (snd (job_task env j) s)) q = files s q)
     \<and> (\<forall>x. fst (snd (job_task env j) s) = Inr x \<longrightarrow> job_done env j (snd (snd (job_task env j) s)))"
proof -
  obtain p u c z where j: "j = (p, u, c, z)" by (cases j)
  from dic_effect[of env p u "''sha1''" c z s] obtain evs where
    e: "trace (snd (downloadIfChanged env p u ''sha1'' c z s)) = trace s @ evs"
       "\<forall>e\<in>set evs. \<not> is_start e \<and> \<not> is_done e"
       "\<forall>e\<in>set evs. is_write e \<longrightarrow> event_path e = p"
       "length (filter is_write evs) \<le> 1"
       "\<forall>q. q \<noteq> p \<longrightarrow> files (snd (downloadIfChanged env p u ''sha1'' c z s)) q = files s q"
       "\<forall>x. fst (downloadIfChanged env p u ''sha1'' c z s) = Inr x \<longrightarrow>
           locally_correct env p ''sha1'' c z (snd (downloadIfChanged env p u ''sha1'' c z s))"
    by blast
  have w0: "\<forall>q. q \<noteq> p \<longrightarrow> writes_at q evs = 0"
    using e(3) by (auto simp: writes_at_def filter_empty_conv)
  have "length (filter (\<lambda>e. is_write e \<and> event_path e = p) evs) \<le> length (filter is_write evs)"
    by (induction evs) auto
  then have w1: "writes_at p evs \<le> 1" using e(4) by (simp add: writes_at_def)
  show ?thesis
    by (rule exI[of _ evs]) (use j e(1,2,5,6) w0 w1 in simp)
qed

lemma job_done_files:
  "files s (fst j) = files s' (fst j) \<Longrightarrow> job_done env j s = job_done env j s'"
  by (cases j) (simp add: locally_correct_def)

lemma files_log [simp]: "files (log e s) = files s"
  by (simp add: log_def)

lemma trace_log [simp]: "trace (log e s) = trace s @ [e]"
  by (simp add: log_def)

lemma fst_job_task [simp]: "fst (job_task env j) = fst j"
  by (cases j) simp

lemma writes_at_starts [simp]: "writes_at q (map (\<lambda>t. EvStart (f t)) ts) = 0"
  by (induction ts) (simp_all add: writes_at_def)

lemma length_settle_all [simp]: "length (fst (settle_all ts s)) = length ts"
proof (induction ts arbitrary: s)
  case Nil
  show ?case by simp
next
  case (Cons t ts)
  show ?case unfolding settle_all_Cons_fst using Cons by simp
qed

lemma settle_jobs:
  assumes "distinct (map fst js)"
  shows "\<exists>body. trace (snd (settle_all (map (job_task env) js) s)) = trace s @ body
     \<and> (\<forall>q. q \<notin> fst ` set js \<longrightarrow> writes_at q body = 0)
     \<and> (\<forall>q. writes_at q body \<le> 1)
     \<and> (\<forall>q. q \<notin> fst ` set js \<longrightarrow>
           files (snd (settle_all (map (job_task env) js) s)) q = files s q)
     \<and> (\<forall>i<length js. (\<exists>x. fst (settle_all (map (job_task env) js) s) ! i = Inr x) \<longrightarrow>
           job_done env (js ! i) (snd (settle_all (map (job_task env) js) s)))"
  using assms
proof (induction js arbitrary: s)
  case Nil
  then show ?case by simp
next
  case (Cons j js)
  define r where "r = fst (snd (job_task env j) s)"
  define s1 where "s1 = snd (snd (job_task env j) s)"
  let ?s1 = "log (EvDone (fst (job_task env j)) r) s1"
  let ?rest = "settle_all (map (job_task env) js) ?s1"
  have sn: "snd (settle_all (map (job_task env) (j # js)) s) = snd ?rest"
    by (simp only: list.map settle_all_Cons_snd r_def s1_def)
  have fs: "fst (settle_all (map (job_task env) (j # js)) s) = r # fst ?rest"
    by (simp only: list.map settle_all_Cons_fst r_def s1_def)
  from job_effect[of env j s] obtain evs where
    e: "trace s1 = trace s @ evs"
       "\<forall>q. q \<noteq> fst j \<longrightarrow> writes_at q evs = 0"
       "writes_at (fst j) evs \<le> 1"
       "\<forall>q. q \<noteq> fst j \<longrightarrow> files s1 q = files s q"
       "\<forall>x. r = Inr x \<longrightarrow> job_done env j s1"
    unfolding r_def s1_def by blast
  from Cons.prems have dj: "fst j \<notin> fst ` set js" and djs: "distinct (map fst js)" by auto
  from Cons.IH[OF djs, of ?s1] obtain body where
    b: "trace (snd ?rest) = trace ?s1 @ body"
       "\<forall>q. q \<notin> fst ` set js \<longrightarrow> writes_at q body = 0"
       "\<forall>q. writes_at q body \<le> 1"
       "\<forall>q. q \<notin> fst ` set js \<longrightarrow> files (snd ?rest) q = files ?s1 q"
       "\<forall>i<length js. (\<exists>x. fst ?rest ! i = Inr x) \<longrightarrow> job_done env (js ! i) (snd ?rest)"
    by blast
  let ?body = "evs @ EvDone (fst (job_task env j)) r # body"
  have 1: "trace (snd ?rest) = trace s @ ?body" using b(1) e(1) by simp
  have 2: "\<forall>q. q \<notin> fst ` set (j # js) \<longrightarrow> writes_at q ?body = 0"
    using e(2) b(2) by simp
  have 3: "\<forall>q. writes_at q ?body \<le> 1"
  proof
    fix q
    show "writes_at q ?body \<le> 1"
    proof (cases "q = fst j")
      case True
      with dj b(2) have "writes_at q body = 0" by simp
      with True e(3) show ?thesis by simp
    next
      case False
      with e(2) have "writes_at q evs = 0" by simp
      with b(3) show ?thesis by simp
    qed
  qed
  have 4: "\<forall>q. q \<notin> fst ` set (j # js) \<longrightarrow> files (snd ?rest) q = files s q"
    using e(4) b(4) by simp
  have 5: "\<forall>i<length (j # js). (\<exists>x. (r # fst ?rest) ! i = Inr x) \<longrightarrow>
             job_done env ((j # js) ! i) (snd ?rest)"
  proof (intro allI impI)
    fix i assume i: "i < length (j # js)" and x: "\<exists>x. (r # fst ?rest) ! i = Inr x"
    show "job_done env ((j # js) ! i) (snd ?rest)"
    proof (cases i)
      case 0
      with x e(5) have "job_done env j s1" by auto
      moreover have "files (snd ?rest) (fst j) = files s1 (fst j)" using dj b(4) by simp
      ultimately show ?thesis using 0 job_done_files[of "snd ?rest" j s1 env] by simp
    next
      case (Suc i')
      with i x b(5) show ?thesis by simp
    qed
  qed
  show ?case
    unfolding sn fs
    by (rule exI[of _ ?body]) (intro conjI 1 2 3 4 5)
qed

lemma all_fulfilled_Inr: "all_fulfilled rs = Inr xs \<Longrightarrow> rs = map Inr xs"
  by (induction rs arbitrary: xs rule: all_fulfilled.induct) (auto split: sum.splits)

lemma all_fulfilled_Inl: "all_fulfilled rs = Inl e \<Longrightarrow> Inl e \<in> set rs"
  by (induction rs rule: all_fulfilled.induct) (auto split: sum.splits)

lemma all_fulfilled_rejects: "Inl e \<in> set rs \<Longrightarrow> \<exists>e'. all_fulfilled rs = Inl e'"
  by (induction rs rule: all_fulfilled.induct) (auto split: sum.splits)

lemma Promise_all_jobs:
  assumes "distinct (map fst js)"
  shows "\<exists>body. trace (snd (Promise_all (map (job_task env) js) s))
                  = trace s @ map (\<lambda>j. EvStart (fst j)) js @ body
     \<and> (\<forall>q. q \<notin> fst ` set js \<longrightarrow> writes_at q body = 0)
     \<and> (\<forall>q. writes_at q body \<le> 1)
     \<and> (\<forall>q. q \<notin> fst ` set js \<longrightarrow>
           files (snd (Promise_all (map (job_task env) js) s)) q = files s q)
     \<and> ((\<exists>xs. fst (Promise_all (map (job_task env) js) s) = Inr xs) \<longrightarrow>
           (\<forall>j\<in>set js. job_done env j (snd (Promise_all (map (job_task env) js) s))))"
proof -
  let ?ts = "map (job_task env) js"
  let ?s0 = "start_all ?ts s"
  from settle_jobs[OF assms, of env ?s0] obtain body where
    b: "trace (snd (settle_all ?ts ?s0)) = trace ?s0 @ body"
       "\<forall>q. q \<notin> fst ` set js \<longrightarrow> writes_at q body = 0"
       "\<forall>q. writes_at q body \<le> 1"
       "\<forall>q. q \<notin> fst ` set js \<longrightarrow> files (snd (settle_all ?ts ?s0)) q = files ?s0 q"
       "\<forall>i<length js. (\<exists>x. fst (settle_all ?ts ?s0) ! i = Inr x) \<longrightarrow>
           job_done env (js ! i) (snd (settle_all ?ts ?s0))"
    by blast
  have 1: "trace (snd (settle_all ?ts ?s0)) = trace s @ map (\<lambda>j. EvStart (fst j)) js @ body"
    using b(1) by (simp add: trace_start_all comp_def)
  have 5: "(\<exists>xs. all_fulfilled (fst (settle_all ?ts ?s0)) = Inr xs) \<longrightarrow>
           (\<forall>j\<in>set js. job_done env j (snd (settle_all ?ts ?s0)))"
  proof (intro impI ballI)
    fix j assume "\<exists>xs. all_fulfilled (fst (settle_all ?ts ?s0)) = Inr xs" and j: "j \<in> set js"
    then obtain xs where "fst (settle_all ?ts ?s0) = map Inr xs"
      using all_fulfilled_Inr by blast
    moreover from j obtain i where i: "i < length js" "js ! i = j" by (auto simp: in_set_conv_nth)
    moreover have "length xs = length js"
      using calculation(1) length_settle_all[of ?ts ?s0] by (metis length_map)
    ultimately have "\<exists>x. fst (settle_all ?ts ?s0) ! i = Inr x" by simp
    with b(5) i show "job_done env j (snd (settle_all ?ts ?s0))" by blast
  qed
  show ?thesis
    unfolding Promise_all_snd Promise_all_fst
    by (rule exI[of _ body]) (use 1 b(2,3,4) 5 in simp)
qed

lemma download_chunks_effect:
  assumes "distinct (map hash objects)"
  shows "\<exists>evs. trace (snd (download_chunks env folder objects i n s)) = trace s @ evs
     \<and> (\<forall>q. q \<notin> object_path folder ` hash ` set (drop i objects) \<longrightarrow>
           writes_at q evs = 0
           \<and> files (snd (download_chunks env folder objects i n s)) q = files s q)
     \<and> (\<forall>q. writes_at q evs \<le> 1)
     \<and> ((\<exists>x. fst (download_chunks env folder objects i n s) = Inr x) \<longrightarrow>
           (\<forall>object\<in>set (drop i objects).
              job_done env (object_job folder object)
                (snd (download_chunks env folder objects i n s))))"
  using assms
proof (induction env folder objects i n s rule: download_chunks.induct)
  case (1 env folder objects i n s)
  show ?case
  proof (cases "i < length objects")
    case False
    then have "download_chunks env folder objects i n s = (Inr n, s)"
      by (subst download_chunks.simps) simp
    with False show ?thesis by simp
  next
    case True
    let ?chunk = "slice objects i (i + maxConcurrency)"
    let ?js = "map (object_job folder) ?chunk"
    let ?tasks = "map (download_object env folder) ?chunk"
    let ?P = "\<lambda>os. object_path folder ` hash ` set os"
    have tj: "?tasks = map (job_task env) ?js" by (simp add: download_object_job)
    have ch: "?chunk = take maxConcurrency (drop i objects)" by (simp add: slice_def)
    have split: "drop i objects = ?chunk @ drop (i + maxConcurrency) objects"
      unfolding ch by (metis add.commute append_take_drop_id drop_drop)
    have dd: "distinct (map hash (drop i objects))"
      using "1.prems" by (simp add: distinct_drop drop_map[symmetric] del: drop_map)
    then have dc: "distinct (map hash ?chunk)"
      unfolding split by simp
    have djs: "distinct (map fst ?js)"
      using distinct_object_paths[OF dc, of folder] by (simp add: comp_def)
    have pjs: "fst ` set ?js = ?P ?chunk" by (simp add: image_image object_job_def)
    have disj: "?P ?chunk \<inter> ?P (drop (i + maxConcurrency) objects) = {}"
    proof -
      have "distinct (map hash (?chunk @ drop (i + maxConcurrency) objects))"
        using dd split by simp
      then have "hash ` set ?chunk \<inter> hash ` set (drop (i + maxConcurrency) objects) = {}"
        by simp
      then show ?thesis using object_path_inj by blast
    qed
    have un: "?P (drop i objects) = ?P ?chunk \<union> ?P (drop (i + maxConcurrency) objects)"
      by (subst split) (simp add: image_Un)
    obtain r1 s1 where pa: "Promise_all ?tasks s = (r1, s1)" by (cases "Promise_all ?tasks s")
    define starts where "starts = map (\<lambda>j. EvStart (fst j)) ?js"
    from Promise_all_jobs[OF djs, of env s] pa obtain body where
      b: "trace s1 = trace s @ starts @ body"
         "\<forall>q. q \<notin> ?P ?chunk \<longrightarrow> writes_at q body = 0"
         "\<forall>q. writes_at q body \<le> 1"
         "\<forall>q. q \<notin> ?P ?chunk \<longrightarrow> files s1 q = files s q"
         "(\<exists>xs. r1 = Inr xs) \<longrightarrow> (\<forall>j\<in>set ?js. job_done env j s1)"
      unfolding tj[symmetric] pjs starts_def by auto
    let ?ev1 = "starts @ body"
    have ws [simp]: "writes_at q starts = 0" for q
      unfolding starts_def by (auto simp: writes_at_def filter_empty_conv)
    have w1: "writes_at q ?ev1 = writes_at q body" for q
      by simp
    show ?thesis
    proof (cases r1)
      case (Inl e)
      then have d: "download_chunks env folder objects i n s = (Inl e, s1)"
        using True pa by (subst download_chunks.simps) simp
      show ?thesis
        unfolding d
        by (rule exI[of _ ?ev1]) (use b un w1 in auto)
    next
      case (Inr downloadResult)
      let ?n = "n + length (filter (\<lambda>downloaded. downloaded) downloadResult)"
      let ?r = "download_chunks env folder objects (i + maxConcurrency) ?n s1"
      have d: "download_chunks env folder objects i n s = ?r"
        using True pa Inr by (subst download_chunks.simps) simp
      from "1.IH"[OF True pa[symmetric] Inr "1.prems"] obtain evs where
        ih: "trace (snd ?r) = trace s1 @ evs"
          "\<forall>q. q \<notin> ?P (drop (i + maxConcurrency) objects) \<longrightarrow>
             writes_at q evs = 0 \<and> files (snd ?r) q = files s1 q"
          "\<forall>q. writes_at q evs \<le> 1"
          "(\<exists>x. fst ?r = Inr x) \<longrightarrow>
             (\<forall>object\<in>set (drop (i + maxConcurrency) objects).
                job_done env (object_job folder object) (snd ?r))"
        by blast
      have 1: "trace (snd ?r) = trace s @ ?ev1 @ evs" using ih(1) b(1) by simp
      have 2: "\<forall>q. q \<notin> ?P (drop i objects) \<longrightarrow>
           writes_at q (?ev1 @ evs) = 0 \<and> files (snd ?r) q = files s q"
        unfolding un using b(2,4) ih(2) by simp
      have 3: "\<forall>q. writes_at q (?ev1 @ evs) \<le> 1"
      proof
        fix q
        show "writes_at q (?ev1 @ evs) \<le> 1"
        proof (cases "q \<in> ?P ?chunk")
          case True
          with disj have "q \<notin> ?P (drop (i + maxConcurrency) objects)" by blast
          with ih(2) have "writes_at q evs = 0" by blast
          with b(3) show ?thesis by simp
        next
          case False
          with b(2) have "writes_at q body = 0" by blast
          with ih(3) show ?thesis by simp
        qed
      qed
      have 4: "(\<exists>x. fst ?r = Inr x) \<longrightarrow>
           (\<forall>object\<in>set (drop i objects). job_done env (object_job folder object) (snd ?r))"
      proof (intro impI ballI)
        fix object assume ok: "\<exists>x. fst ?r = Inr x" and o: "object \<in> set (drop i objects)"
        from o split have "object \<in> set ?chunk \<or> object \<in> set (drop (i + maxConcurrency) objects)"
          by (metis Un_iff set_append)
        then show "job_done env (object_job folder object) (snd ?r)"
        proof
          assume c: "object \<in> set ?chunk"
          with b(5) Inr have "job_done env (object_job folder object) s1" by simp
          moreover have "fst (object_job folder object) \<in> ?P ?chunk"
            using c by (auto simp: object_job_def)
          with disj ih(2) have "files (snd ?r) (fst (object_job folder object))
              = files s1 (fst (object_job folder object))" by blast
          ultimately show ?thesis
            using job_done_files[of "snd ?r" "object_job folder object" s1 env] by simp
        next
          assume "object \<in> set (drop (i + maxConcurrency) objects)"
          with ih(4) ok show ?thesis by blast
        qed
      qed
      show ?thesis
        unfolding d
        by (rule exI[of _ "?ev1 @ evs"]) (intro conjI 1 2 3 4)
    qed
  qed
qed

lemma ex_dedupe: "dedupe_objects example_objects =
   [\<lparr>hash = ''aa11'', obj_size = 4\<rparr>, \<lparr>hash = ''bb22'', obj_size = 4\<rparr>]"
  by (simp add: dedupe_objects_def example_objects_def Object_values_def own_properties_def
      is_array_index_def Object_fromEntries_def set_property_def)

lemma ex_run:
  "fst (download_chunks mirror_env ''assets''
      [\<lparr>hash = ''aa11'', obj_size = 4\<rparr>, \<lparr>hash = ''bb22'', obj_size = 4\<rparr>] 0 0 empty_world) = Inr 2"
  by (simp add: download_chunks.simps maxConcurrency_def slice_def Promise_all_def start_all_def
      download_object_def downloadIfChanged_def probe_cases download_loop.simps
      maxDownloadRetries_def fetch_def requests_def log_def store_cases mirror_env_def
      quiet_env_def empty_world_def object_url_def object_path_def path_join_def)

lemma batched_starts:
  "batched pss evs \<Longrightarrow> map event_path (filter is_start evs) = concat pss"
proof (induction pss arbitrary: evs)
  case Nil
  then show ?case by (simp add: batched.simps)
next
  case (Cons ps pss)
  from batched_decompose[OF Cons.prems] obtain body rest where
    d: "evs = map EvStart ps @ body @ rest" "\<forall>e\<in>set body. \<not> is_start e" "batched pss rest"
    by blast
  have "filter is_start body = []" using d(2) by (auto simp: filter_empty_conv)
  moreover have "map event_path (filter is_start (map EvStart ps)) = ps"
    by (induction ps) simp_all
  ultimately show ?case using Cons.IH[OF d(3)] by (simp add: d(1))
qed


text \<open>
  Claim C3. The objects of a manifest are reduced to one object per hash: the list of
  lines 84 to 91 has no hash twice, has every hash of the manifest, and holds for each
  hash the last manifest entry with it, whatever the logical paths. The chunk loop
  starts one call of \<^verbatim>\<open>downloadIfChanged\<close> per object of the list, at
  \<^verbatim>\<open>objects/<first two characters>/<hash>\<close> under the assets folder; it writes
  no other path, writes each path at most once, and when it returns every object's
  file is at its path with the expected size and checksum.
\<close>

theorem objects_deduplicated_by_hash:
  "distinct (map hash (dedupe_objects manifest_objects))
   \<and> hash ` set (dedupe_objects manifest_objects) = hash ` set (Object_values manifest_objects)
   \<and> (\<forall>object. object \<in> set (dedupe_objects manifest_objects) \<longleftrightarrow>
         (\<exists>ys zs. Object_values manifest_objects = ys @ object # zs
                  \<and> hash object \<notin> hash ` set zs))
   \<and> (\<exists>evs. trace (snd (download_chunks env folder (dedupe_objects manifest_objects) 0 0 s))
               = trace s @ evs
         \<and> (\<forall>q. writes_at q evs \<le> 1)
         \<and> (\<forall>q. q \<notin> object_path folder ` hash ` set (dedupe_objects manifest_objects) \<longrightarrow>
               writes_at q evs = 0
               \<and> files (snd (download_chunks env folder (dedupe_objects manifest_objects) 0 0 s)) q
                   = files s q)
         \<and> ((\<exists>x. fst (download_chunks env folder (dedupe_objects manifest_objects) 0 0 s) = Inr x)
              \<longrightarrow> map event_path (filter is_start evs)
                     = map (\<lambda>object. object_path folder (hash object))
                         (dedupe_objects manifest_objects)
                 \<and> (\<forall>object\<in>set (dedupe_objects manifest_objects).
                       locally_correct env (object_path folder (hash object)) ''sha1''
                         (hash object) (obj_size object)
                         (snd (download_chunks env folder (dedupe_objects manifest_objects)
                                 0 0 s)))))"
proof -
  let ?objects = "dedupe_objects manifest_objects"
  let ?r = "download_chunks env folder ?objects 0 0 s"
  have d: "distinct (map hash ?objects)" by (rule dedupe_distinct)
  from download_chunks_effect[OF d, of env folder 0 0 s] obtain evs where
    e: "trace (snd ?r) = trace s @ evs"
       "\<forall>q. q \<notin> object_path folder ` hash ` set ?objects \<longrightarrow>
           writes_at q evs = 0 \<and> files (snd ?r) q = files s q"
       "\<forall>q. writes_at q evs \<le> 1"
       "(\<exists>x. fst ?r = Inr x) \<longrightarrow>
           (\<forall>object\<in>set ?objects. job_done env (object_job folder object) (snd ?r))"
    by auto
  from download_chunks_batched[of env folder ?objects 0 0 s] obtain k evs' where
    t: "trace (snd ?r) = trace s @ evs'"
       "batched (map (map (\<lambda>object. object_path folder (hash object)))
                      (take k (chunks_from ?objects 0))) evs'"
       "(\<exists>x. fst ?r = Inr x) \<longrightarrow> k = length (chunks_from ?objects 0)"
    by blast
  from e(1) t(1) have same: "evs' = evs" by simp
  have starts: "(\<exists>x. fst ?r = Inr x) \<longrightarrow>
     map event_path (filter is_start evs) = map (\<lambda>object. object_path folder (hash object)) ?objects"
  proof
    assume "\<exists>x. fst ?r = Inr x"
    with t(3) have "k = length (chunks_from ?objects 0)" by blast
    with t(2) same have "batched (map (map (\<lambda>object. object_path folder (hash object)))
                      (chunks_from ?objects 0)) evs" by simp
    from batched_starts[OF this]
    have "map event_path (filter is_start evs) =
            map (\<lambda>object. object_path folder (hash object)) (concat (chunks_from ?objects 0))"
      by (simp add: map_concat)
    then show "map event_path (filter is_start evs) =
            map (\<lambda>object. object_path folder (hash object)) ?objects"
      by (simp add: chunks_from_concat)
  qed
  have good: "(\<exists>x. fst ?r = Inr x) \<longrightarrow>
      (\<forall>object\<in>set ?objects.
          locally_correct env (object_path folder (hash object)) ''sha1''
             (hash object) (obj_size object) (snd ?r))"
    using e(4) by (simp add: object_job_def)
  have run: "\<exists>evs. trace (snd ?r) = trace s @ evs
         \<and> (\<forall>q. writes_at q evs \<le> 1)
         \<and> (\<forall>q. q \<notin> object_path folder ` hash ` set ?objects \<longrightarrow>
               writes_at q evs = 0 \<and> files (snd ?r) q = files s q)
         \<and> ((\<exists>x. fst ?r = Inr x)
              \<longrightarrow> map event_path (filter is_start evs)
                     = map (\<lambda>object. object_path folder (hash object)) ?objects
                 \<and> (\<forall>object\<in>set ?objects.
                       locally_correct env (object_path folder (hash object)) ''sha1''
                         (hash object) (obj_size object) (snd ?r)))"
    by (rule exI[of _ evs]) (use e(1,2,3) starts good in blast)
  have last: "\<forall>object. object \<in> set ?objects \<longleftrightarrow>
         (\<exists>ys zs. Object_values manifest_objects = ys @ object # zs
                  \<and> hash object \<notin> hash ` set zs)"
    using dedupe_last by blast
  show ?thesis
    by (intro conjI d dedupe_hashes last run)
qed



theorem objects_deduplicated_by_hash_witness:
  "map hash (dedupe_objects example_objects) = [''aa11'', ''bb22'']
   \<and> distinct (map hash (dedupe_objects example_objects))
   \<and> (\<exists>evs. trace (snd (download_chunks mirror_env ''assets'' (dedupe_objects example_objects)
                           0 0 empty_world)) = trace empty_world @ evs
         \<and> map event_path (filter is_start evs)
             = [''assets/objects/aa/aa11'', ''assets/objects/bb/bb22'']
         \<and> writes_at ''assets/objects/aa/aa11'' evs \<le> 1
         \<and> locally_correct mirror_env ''assets/objects/aa/aa11'' ''sha1'' ''aa11'' 4
              (snd (download_chunks mirror_env ''assets'' (dedupe_objects example_objects)
                      0 0 empty_world)))"
proof -
  let ?r = "download_chunks mirror_env ''assets'' (dedupe_objects example_objects) 0 0 empty_world"
  have returns: "\<exists>x. fst ?r = Inr x"
    using ex_run by (simp add: ex_dedupe)
  from objects_deduplicated_by_hash[of example_objects mirror_env "''assets''" empty_world]
  have d: "distinct (map hash (dedupe_objects example_objects))"
    and "\<exists>evs. trace (snd ?r) = trace empty_world @ evs
         \<and> (\<forall>q. writes_at q evs \<le> 1)
         \<and> (\<forall>q. q \<notin> object_path ''assets'' ` hash ` set (dedupe_objects example_objects) \<longrightarrow>
               writes_at q evs = 0 \<and> files (snd ?r) q = files empty_world q)
         \<and> ((\<exists>x. fst ?r = Inr x)
              \<longrightarrow> map event_path (filter is_start evs)
                     = map (\<lambda>object. object_path ''assets'' (hash object))
                         (dedupe_objects example_objects)
                 \<and> (\<forall>object\<in>set (dedupe_objects example_objects).
                       locally_correct mirror_env (object_path ''assets'' (hash object)) ''sha1''
                         (hash object) (obj_size object) (snd ?r)))"
    by blast+
  with returns obtain evs where
    e: "trace (snd ?r) = trace empty_world @ evs"
       "\<forall>q. writes_at q evs \<le> 1"
       "map event_path (filter is_start evs)
          = map (\<lambda>object. object_path ''assets'' (hash object)) (dedupe_objects example_objects)"
       "\<forall>object\<in>set (dedupe_objects example_objects).
           locally_correct mirror_env (object_path ''assets'' (hash object)) ''sha1''
              (hash object) (obj_size object) (snd ?r)"
    by blast
  have p: "map (\<lambda>object. object_path ''assets'' (hash object)) (dedupe_objects example_objects)
            = [''assets/objects/aa/aa11'', ''assets/objects/bb/bb22'']"
    by (simp add: ex_dedupe object_path_def path_join_def)
  have g: "locally_correct mirror_env ''assets/objects/aa/aa11'' ''sha1'' ''aa11'' 4 (snd ?r)"
    using e(4) by (simp add: ex_dedupe object_path_def path_join_def)
  have h: "map hash (dedupe_objects example_objects) = [''aa11'', ''bb22'']"
    by (simp add: ex_dedupe)
  have
    "\<exists>evs. trace (snd ?r) = trace empty_world @ evs
         \<and> map event_path (filter is_start evs)
             = [''assets/objects/aa/aa11'', ''assets/objects/bb/bb22'']
         \<and> writes_at ''assets/objects/aa/aa11'' evs \<le> 1
         \<and> locally_correct mirror_env ''assets/objects/aa/aa11'' ''sha1'' ''aa11'' 4 (snd ?r)"
    by (rule exI[of _ evs]) (use e(1) e(2) e(3)[unfolded p] g in simp)
  with h d show ?thesis by (intro conjI)
qed

lemma downloadJson_effect:
  "\<exists>evs. trace (snd (downloadJson env u s)) = trace s @ evs
      \<and> (\<forall>e\<in>set evs. is_fetch e) \<and> files (snd (downloadJson env u s)) = files s"
  by (rule exI[of _ "[EvFetch u]"])
     (simp add: downloadJson_def fetch_def log_def split: sum.splits option.splits)

lemma resolve_versions_effect:
  "\<exists>evs. trace (snd (resolve_versions env doc versions acc s)) = trace s @ evs
      \<and> (\<forall>e\<in>set evs. is_fetch e)
      \<and> files (snd (resolve_versions env doc versions acc s)) = files s"
proof (induction versions arbitrary: acc s)
  case Nil
  then show ?case by simp
next
  case (Cons version rest)
  show ?case
  proof (cases doc)
    case (VersionManifest versions)
    show ?thesis
    proof (cases "find (\<lambda>v. v_id v = version) versions")
      case None
      then show ?thesis using VersionManifest by simp
    next
      case (Some v)
      show ?thesis
      proof (cases "v_url v = []")
        case True
        then show ?thesis using VersionManifest Some by simp
      next
        case False
        obtain r s1 where dj: "downloadJson env (v_url v) s = (r, s1)"
          by (cases "downloadJson env (v_url v) s")
        from downloadJson_effect[of env "v_url v" s] dj obtain e1 where
          e1: "trace s1 = trace s @ e1" "\<forall>e\<in>set e1. is_fetch e" "files s1 = files s"
          by auto
        have other: "\<exists>evs. trace s1 = trace s @ evs \<and> (\<forall>e\<in>set evs. is_fetch e)
                        \<and> files s1 = files s"
          using e1 by blast
        show ?thesis
        proof (cases r)
          case (Inl e)
          then show ?thesis using VersionManifest Some False dj other by simp
        next
          case (Inr d)
          show ?thesis
          proof (cases d)
            case (VersionMeta assetIndex)
            let ?acc = "set_property (ai_id assetIndex) assetIndex acc"
            from Cons.IH[of ?acc s1] obtain e2 where
              e2: "trace (snd (resolve_versions env doc rest ?acc s1)) = trace s1 @ e2"
                  "\<forall>e\<in>set e2. is_fetch e"
                  "files (snd (resolve_versions env doc rest ?acc s1)) = files s1"
              by blast
            have eq: "resolve_versions env doc (version # rest) acc s =
                        resolve_versions env doc rest ?acc s1"
              using VersionManifest Some False dj Inr VersionMeta by simp
            show ?thesis
              unfolding eq
              by (rule exI[of _ "e1 @ e2"]) (use e1 e2 in auto)
          qed (use VersionManifest Some False dj Inr other in simp_all)
        qed
      qed
    qed
  qed simp_all
qed

lemma getAssetIndices_effect:
  "\<exists>evs. trace (snd (getAssetIndices env versions s)) = trace s @ evs
      \<and> (\<forall>e\<in>set evs. is_fetch e)
      \<and> files (snd (getAssetIndices env versions s)) = files s"
proof -
  obtain r s1 where dj: "downloadJson env version_manifest_url s = (r, s1)"
    by (cases "downloadJson env version_manifest_url s")
  from downloadJson_effect[of env version_manifest_url s] dj obtain e1 where
    e1: "trace s1 = trace s @ e1" "\<forall>e\<in>set e1. is_fetch e" "files s1 = files s"
    by auto
  show ?thesis
  proof (cases r)
    case (Inl e)
    then have "getAssetIndices env versions s = (Inl e, s1)"
      using dj by (simp add: getAssetIndices_def)
    then show ?thesis using e1 by auto
  next
    case (Inr doc)
    then have eq: "getAssetIndices env versions s = resolve_versions env doc versions [] s1"
      using dj by (simp add: getAssetIndices_def)
    from resolve_versions_effect[of env doc versions "[]" s1] obtain e2 where
      e2: "trace (snd (resolve_versions env doc versions [] s1)) = trace s1 @ e2"
          "\<forall>e\<in>set e2. is_fetch e"
          "files (snd (resolve_versions env doc versions [] s1)) = files s1"
      by blast
    show ?thesis
      unfolding eq
      by (rule exI[of _ "e1 @ e2"]) (use e1 e2 in auto)
  qed
qed

lemma settle_all_rejections:
  assumes "\<forall>t\<in>set tasks. quiet t"
  shows "\<exists>body. trace (snd (settle_all tasks s)) = trace s @ body
           \<and> (\<forall>e\<in>set body. \<not> is_start e)
           \<and> filter is_done body = map (\<lambda>(t, r). EvDone (fst t) r) (zip tasks (fst (settle_all tasks s)))"
  using assms
proof (induction tasks arbitrary: s)
  case Nil
  then show ?case by simp
next
  case (Cons t ts)
  define r where "r = fst (snd t s)"
  define s1 where "s1 = snd (snd t s)"
  from Cons.prems have "quiet t" by simp
  then obtain evs where evs: "trace s1 = trace s @ evs" "\<forall>e\<in>set evs. \<not> is_start e \<and> \<not> is_done e"
    unfolding quiet_def s1_def by blast
  let ?s1 = "log (EvDone (fst t) r) s1"
  from Cons.IH[of ?s1] Cons.prems obtain body where
    b: "trace (snd (settle_all ts ?s1)) = trace ?s1 @ body" "\<forall>e\<in>set body. \<not> is_start e"
       "filter is_done body = map (\<lambda>(t, r). EvDone (fst t) r) (zip ts (fst (settle_all ts ?s1)))"
    by auto
  have nd: "filter is_done evs = []" using evs(2) by (auto simp: filter_empty_conv)
  have sn: "snd (settle_all (t # ts) s) = snd (settle_all ts ?s1)"
    by (simp only: settle_all_Cons_snd r_def s1_def)
  have fs: "fst (settle_all (t # ts) s) = r # fst (settle_all ts ?s1)"
    by (simp only: settle_all_Cons_fst r_def s1_def)
  show ?case
    apply (rule exI[of _ "evs @ EvDone (fst t) r # body"])
    unfolding sn fs using evs b nd by auto
qed

lemma faithfulI:
  assumes "\<And>s. \<exists>evs. trace (snd (f s)) = trace s @ evs
        \<and> ((\<exists>x. fst (f s) = Inr x) \<longrightarrow> (\<forall>e\<in>set evs. \<not> is_rejection e))"
  shows "faithful f"
  using assms by (simp add: faithful_def)

lemma faithful_bind:
  assumes "faithful f" and "\<And>x. faithful (g x)"
  shows "faithful (\<lambda>s. case f s of (Inl e, s1) \<Rightarrow> (Inl e, s1) | (Inr x, s1) \<Rightarrow> g x s1)"
proof (rule faithfulI)
  fix s
  obtain r s1 where f: "f s = (r, s1)" by (cases "f s")
  from assms(1) f obtain e1 where
    e1: "trace s1 = trace s @ e1" "(\<exists>x. r = Inr x) \<longrightarrow> (\<forall>e\<in>set e1. \<not> is_rejection e)"
    unfolding faithful_def by (metis fst_conv snd_conv)
  show "\<exists>evs. trace (snd (case f s of (Inl e, s1) \<Rightarrow> (Inl e, s1) | (Inr x, s1) \<Rightarrow> g x s1))
                = trace s @ evs
        \<and> ((\<exists>x. fst (case f s of (Inl e, s1) \<Rightarrow> (Inl e, s1) | (Inr x, s1) \<Rightarrow> g x s1) = Inr x)
            \<longrightarrow> (\<forall>e\<in>set evs. \<not> is_rejection e))"
  proof (cases r)
    case (Inl e)
    then show ?thesis using f e1 by simp
  next
    case (Inr x)
    from assms(2)[of x] obtain e2 where
      e2: "trace (snd (g x s1)) = trace s1 @ e2"
          "(\<exists>y. fst (g x s1) = Inr y) \<longrightarrow> (\<forall>e\<in>set e2. \<not> is_rejection e)"
      unfolding faithful_def by blast
    show ?thesis
      by (rule exI[of _ "e1 @ e2"]) (use f Inr e1 e2 in auto)
  qed
qed

lemma faithful_plain:
  assumes "\<And>s. \<exists>evs. trace (snd (f s)) = trace s @ evs \<and> (\<forall>e\<in>set evs. \<not> is_done e)"
  shows "faithful f"
proof (rule faithfulI)
  fix s
  from assms[of s] obtain evs where
    e: "trace (snd (f s)) = trace s @ evs" "\<forall>e\<in>set evs. \<not> is_done e" by blast
  have "\<forall>e\<in>set evs. \<not> is_rejection e"
  proof
    fix e assume "e \<in> set evs"
    with e(2) have "\<not> is_done e" by blast
    then show "\<not> is_rejection e" by (cases e rule: is_rejection.cases) auto
  qed
  with e(1) show "\<exists>evs. trace (snd (f s)) = trace s @ evs
        \<and> ((\<exists>x. fst (f s) = Inr x) \<longrightarrow> (\<forall>e\<in>set evs. \<not> is_rejection e))" by blast
qed

lemma is_rejection_done: "is_rejection e \<Longrightarrow> is_done e"
  by (cases e rule: is_rejection.cases) auto

lemma faithful_return: "faithful (\<lambda>s. (r, s))"
  by (rule faithfulI) simp

lemma faithful_readFile: "faithful (readFile env p)"
  by (rule faithful_plain, rule exI[of _ "[EvRead p]"]) (simp add: readFile_def log_def)

lemma faithful_getFolderSize: "faithful (getFolderSize env p)"
  by (rule faithful_plain, rule exI[of _ "[EvReaddir p]"]) (simp add: getFolderSize_def log_def)

lemma faithful_getAssetIndices: "faithful (getAssetIndices env versions)"
proof (rule faithful_plain)
  fix s
  from getAssetIndices_effect[of env versions s] obtain evs where
    "trace (snd (getAssetIndices env versions s)) = trace s @ evs" "\<forall>e\<in>set evs. is_fetch e"
    by blast
  moreover have "is_fetch e \<Longrightarrow> \<not> is_done e" for e by (cases e) auto
  ultimately show "\<exists>evs. trace (snd (getAssetIndices env versions s)) = trace s @ evs
      \<and> (\<forall>e\<in>set evs. \<not> is_done e)" by blast
qed

lemma faithful_Promise_all:
  assumes "\<forall>t\<in>set tasks. quiet t"
  shows "faithful (Promise_all tasks)"
proof (rule faithfulI)
  fix s
  let ?s0 = "start_all tasks s"
  let ?rs = "fst (settle_all tasks ?s0)"
  from settle_all_rejections[OF assms, of ?s0] obtain body where
    b: "trace (snd (settle_all tasks ?s0)) = trace ?s0 @ body"
       "filter is_done body = map (\<lambda>(t, r). EvDone (fst t) r) (zip tasks ?rs)"
    by blast
  let ?evs = "map (\<lambda>t. EvStart (fst t)) tasks @ body"
  have 1: "trace (snd (Promise_all tasks s)) = trace s @ ?evs"
    unfolding Promise_all_snd using b(1) by (simp add: trace_start_all)
  have 2: "(\<exists>xs. fst (Promise_all tasks s) = Inr xs) \<longrightarrow> (\<forall>e\<in>set ?evs. \<not> is_rejection e)"
  proof (intro impI ballI notI)
    fix e assume ok: "\<exists>xs. fst (Promise_all tasks s) = Inr xs" and e: "e \<in> set ?evs"
      and rej: "is_rejection e"
    from ok obtain xs where xs: "?rs = map Inr xs"
      unfolding Promise_all_fst using all_fulfilled_Inr by blast
    from rej have d: "is_done e" by (rule is_rejection_done)
    with e have "e \<in> set (filter is_done body)" by auto
    then obtain t r where "e = EvDone (fst t) r" "r \<in> set ?rs"
      unfolding b(2) by (auto dest: set_zip_rightD)
    with xs rej show False by auto
  qed
  from 1 2 show "\<exists>evs. trace (snd (Promise_all tasks s)) = trace s @ evs
        \<and> ((\<exists>x. fst (Promise_all tasks s) = Inr x) \<longrightarrow> (\<forall>e\<in>set evs. \<not> is_rejection e))"
    by blast
qed

lemma faithful_await_task:
  assumes "quiet t"
  shows "faithful (await_task t)"
proof (rule faithfulI)
  fix s
  let ?s0 = "log (EvStart (fst t)) s"
  define r where "r = fst (snd t ?s0)"
  define s1 where "s1 = snd (snd t ?s0)"
  from assms obtain evs where evs: "trace s1 = trace ?s0 @ evs"
      "\<forall>e\<in>set evs. \<not> is_start e \<and> \<not> is_done e"
    unfolding quiet_def s1_def by blast
  have aw: "await_task t s = (r, log (EvDone (fst t) r) s1)"
    by (simp add: await_task_def r_def s1_def split: prod.splits)
  have nr: "\<forall>e\<in>set evs. \<not> is_rejection e" using evs(2) is_rejection_done by blast
  show "\<exists>evs. trace (snd (await_task t s)) = trace s @ evs
        \<and> ((\<exists>x. fst (await_task t s) = Inr x) \<longrightarrow> (\<forall>e\<in>set evs. \<not> is_rejection e))"
    unfolding aw
    by (rule exI[of _ "EvStart (fst t) # evs @ [EvDone (fst t) r]"]) (use evs(1) nr in auto)
qed

lemma faithful_download_chunks: "faithful (download_chunks env folder objects i n)"
proof (induction "length objects - i" arbitrary: i n rule: less_induct)
  case less
  show ?case
  proof (cases "i < length objects")
    case False
    then have "download_chunks env folder objects i n = (\<lambda>s. (Inr n, s))"
      by (intro ext, subst download_chunks.simps) simp
    then show ?thesis by (simp add: faithful_return)
  next
    case True
    let ?tasks = "map (download_object env folder) (slice objects i (i + maxConcurrency))"
    have eq: "download_chunks env folder objects i n =
       (\<lambda>s. case Promise_all ?tasks s of
               (Inl e, s1) \<Rightarrow> (Inl e, s1)
             | (Inr downloadResult, s1) \<Rightarrow>
                 download_chunks env folder objects (i + maxConcurrency)
                   (n + length (filter (\<lambda>downloaded. downloaded) downloadResult)) s1)"
      using True by (intro ext, subst download_chunks.simps) simp
    have q: "\<forall>t\<in>set ?tasks. quiet t" by (auto simp: quiet_download_object)
    show ?thesis
      unfolding eq
      by (rule faithful_bind[OF faithful_Promise_all[OF q]], rule less)
         (use True in \<open>simp add: maxConcurrency_def\<close>)
  qed
qed


lemma faithful_download_index: "faithful (download_index env folder assetIndex)"
proof -
  let ?p = "index_path folder (ai_id assetIndex)"
  let ?t = "(?p, downloadIfChanged env ?p (ai_url assetIndex) ''sha1''
                   (ai_sha1 assetIndex) (ai_size assetIndex))"
  let ?parse = "\<lambda>content s2. case JSON_parse env content of
                  None \<Rightarrow> (Inl (SyntaxError ''Unexpected token''), s2)
                | Some (AssetIndexDoc manifest_objects) \<Rightarrow>
                    download_chunks env folder (dedupe_objects manifest_objects) 0 0 s2
                | Some _ \<Rightarrow>
                    (Inl (TypeError ''Cannot convert undefined or null to object''), s2)"
  have eq: "download_index env folder assetIndex =
      (\<lambda>s. case await_task ?t s of
              (Inl e, s1) \<Rightarrow> (Inl e, s1)
            | (Inr x, s1) \<Rightarrow>
                (\<lambda>s1. case readFile env ?p s1 of
                         (Inl e, s2) \<Rightarrow> (Inl e, s2)
                       | (Inr content, s2) \<Rightarrow> ?parse content s2) s1)"
    by (intro ext) (simp add: download_index_def Let_def)
  have p: "faithful (?parse content)" for content
  proof (cases "JSON_parse env content")
    case None
    then show ?thesis by (simp add: faithful_return)
  next
    case (Some doc)
    then show ?thesis
      by (cases doc) (simp_all add: faithful_return faithful_download_chunks)
  qed
  show ?thesis
    unfolding eq
    by (intro faithful_bind faithful_await_task quiet_dic faithful_readFile p)
qed

lemma faithful_download_indices: "faithful (download_indices env folder indices)"
proof (induction indices)
  case Nil
  have "download_indices env folder [] = (\<lambda>s. (Inr (), s))" by (intro ext) simp
  then show ?case by (simp add: faithful_return)
next
  case (Cons a rest)
  have eq: "download_indices env folder (a # rest) =
      (\<lambda>s. case download_index env folder a s of
              (Inl e, s1) \<Rightarrow> (Inl e, s1)
            | (Inr x, s1) \<Rightarrow> download_indices env folder rest s1)"
    by (intro ext) simp
  show ?case unfolding eq by (intro faithful_bind faithful_download_index Cons)
qed

lemma faithful_downloadAssets: "faithful (downloadAssets env versions folder)"
proof -
  have eq: "downloadAssets env versions folder =
      (\<lambda>s. case getAssetIndices env versions s of
              (Inl e, s1) \<Rightarrow> (Inl e, s1)
            | (Inr assetIndices, s1) \<Rightarrow>
                (\<lambda>s1. case download_indices env folder (Object_values assetIndices) s1 of
                   (Inl e, s2) \<Rightarrow> (Inl e, s2)
                 | (Inr x, s2) \<Rightarrow> getFolderSize env folder s2) s1)"
    by (intro ext) (simp add: downloadAssets_def)
  show ?thesis
    unfolding eq
    by (intro faithful_bind faithful_getAssetIndices faithful_download_indices
        faithful_getFolderSize)
qed

lemma requests_append:
  "trace s' = trace s @ evs \<Longrightarrow>
     requests u s' = requests u s + length (filter (\<lambda>e. e = EvFetch u) evs)"
  by (simp add: requests_def)

lemma loop_requests:
  "requests u' (snd (download_loop env u m c sz retries le b s))
     \<le> requests u' s + (maxDownloadRetries - retries)"
proof -
  from loop_trace[of env u m c sz retries le b s] obtain evs where
    e: "trace (snd (download_loop env u m c sz retries le b s)) = trace s @ evs"
       "set evs \<subseteq> {EvFetch u, EvSleep 2000}"
       "length (filter (\<lambda>e. e = EvFetch u) evs) \<le> maxDownloadRetries - retries"
    by blast
  show ?thesis
  proof (cases "u' = u")
    case True
    with e(3) requests_append[OF e(1), of u] show ?thesis by simp
  next
    case False
    with e(2) have "filter (\<lambda>e. e = EvFetch u') evs = []"
      by (auto simp: filter_empty_conv)
    with requests_append[OF e(1), of u'] show ?thesis by simp
  qed
qed

lemma store_requests [simp]: "requests u' (snd (store env p b s)) = requests u' s"
  by (simp add: store_def mkdir_def writeFile_def requests_def log_def Let_def
      split: option.splits write_failure.splits)

lemma dic_requests:
  "requests u' (snd (downloadIfChanged env p u m c sz s)) \<le> requests u' s + maxDownloadRetries"
proof -
  obtain r1 s1 where pr: "probe env p m c sz s = (r1, s1)" by (cases "probe env p m c sz s")
  have r1: "requests u' s1 = requests u' s" using probe_requests[of u' env p m c sz s] pr by simp
  obtain r2 s2 where l: "download_loop env u m c sz 0 None None s1 = (r2, s2)"
    by (cases "download_loop env u m c sz 0 None None s1")
  have r2: "requests u' s2 \<le> requests u' s + maxDownloadRetries"
    using loop_requests[of u' env u m c sz 0 None None s1] l r1 by simp
  have "snd (downloadIfChanged env p u m c sz s) = s1
      \<or> snd (downloadIfChanged env p u m c sz s) = s2
      \<or> (\<exists>b. snd (downloadIfChanged env p u m c sz s) = snd (store env p b s2))"
    using pr l
    by (auto simp: downloadIfChanged_def split: sum.splits bool.splits prod.splits option.splits)
  then show ?thesis using r1 r2 by auto
qed

text \<open>
  Claim C2. A call of \<^verbatim>\<open>downloadIfChanged\<close> issues at most five requests.
  When a download is needed, any run of failed attempts (a status that is not a
  success, a body of the wrong length, a digest that differs) is retried the same way,
  each followed by the pause of two seconds. If the attempt after \<open>n < 5\<close> failures is
  accepted, the accepted bytes go to the store step of lines 238 to 241, and when
  \<^verbatim>\<open>mkdir\<close> and \<^verbatim>\<open>writeFile\<close> succeed the call returns
  \<^verbatim>\<open>true\<close> with the bytes at the path. If five attempts fail, the call throws
  the error that carries the URL and the reason of the fifth failure. A rejected call
  is never absorbed: whenever \<^verbatim>\<open>downloadAssets\<close> is fulfilled, no call in its
  trace was rejected.
\<close>

theorem download_retry_policy:
  "maxDownloadRetries = 5
   \<and> (\<forall>u'. requests u' (snd (downloadIfChanged env p u m c sz s))
              \<le> requests u' s + maxDownloadRetries)
   \<and> (\<forall>s1 n buf.
         probe env p m c sz s = (Inr False, s1) \<and> n < maxDownloadRetries
         \<and> (\<forall>i<n. \<exists>r. attempt env u m c sz (requests u s1 + i) = Retry r)
         \<and> attempt env u m c sz (requests u s1 + n) = Accepted buf \<longrightarrow>
           downloadIfChanged env p u m c sz s
             = store env p (Some buf) (log (EvFetch u) (retried u n s1))
           \<and> (mkdir_fault env (dirname p) = None \<and> write_fault env p = None \<longrightarrow>
                fst (downloadIfChanged env p u m c sz s) = Inr True
                \<and> files (snd (downloadIfChanged env p u m c sz s)) p = Some buf))
   \<and> (\<forall>s1 r.
         probe env p m c sz s = (Inr False, s1)
         \<and> (\<forall>i<maxDownloadRetries. \<exists>r. attempt env u m c sz (requests u s1 + i) = Retry r)
         \<and> attempt env u m c sz (requests u s1 + (maxDownloadRetries - 1)) = Retry r \<longrightarrow>
           downloadIfChanged env p u m c sz s
             = (Inl (DownloadFailed u r), retried u maxDownloadRetries s1))
   \<and> faithful (downloadAssets env versions folder)"
proof (intro conjI allI impI)
  show "maxDownloadRetries = 5" by (simp add: maxDownloadRetries_def)
next
  fix u'
  show "requests u' (snd (downloadIfChanged env p u m c sz s))
          \<le> requests u' s + maxDownloadRetries"
    by (rule dic_requests)
next
  fix s1 n buf
  assume a: "probe env p m c sz s = (Inr False, s1) \<and> n < maxDownloadRetries
         \<and> (\<forall>i<n. \<exists>r. attempt env u m c sz (requests u s1 + i) = Retry r)
         \<and> attempt env u m c sz (requests u s1 + n) = Accepted buf"
  then show d: "downloadIfChanged env p u m c sz s
             = store env p (Some buf) (log (EvFetch u) (retried u n s1))"
    by (intro dic_accepted) simp_all
  assume "mkdir_fault env (dirname p) = None \<and> write_fault env p = None"
  then show "fst (downloadIfChanged env p u m c sz s) = Inr True"
    and "files (snd (downloadIfChanged env p u m c sz s)) p = Some buf"
    unfolding d by (simp_all add: store_cases)
next
  fix s1 r
  assume "probe env p m c sz s = (Inr False, s1)
         \<and> (\<forall>i<maxDownloadRetries. \<exists>r. attempt env u m c sz (requests u s1 + i) = Retry r)
         \<and> attempt env u m c sz (requests u s1 + (maxDownloadRetries - 1)) = Retry r"
  then show "downloadIfChanged env p u m c sz s
             = (Inl (DownloadFailed u r), retried u maxDownloadRetries s1)"
    by (intro dic_exhausted) simp_all
next
  show "faithful (downloadAssets env versions folder)" by (rule faithful_downloadAssets)
qed

theorem download_retry_policy_witness:
  "downloadIfChanged recovering_env ''assets/objects/he/hello'' ''https://origin/he/hello''
      ''sha1'' ''hello'' 5 empty_world
   = (Inr True,
      \<lparr>files = [''assets/objects/he/hello'' \<mapsto> ''hello''],
       trace = [EvStat ''assets/objects/he/hello'',
                EvFetch ''https://origin/he/hello'', EvSleep 2000,
                EvFetch ''https://origin/he/hello'', EvSleep 2000,
                EvFetch ''https://origin/he/hello'',
                EvMkdir ''assets/objects/he'',
                EvWrite ''assets/objects/he/hello'' ''hello'']\<rparr>)
   \<and> downloadIfChanged down_env ''assets/objects/he/hello'' ''https://origin/he/hello''
      ''sha1'' ''hello'' 5 empty_world
   = (Inl (Error ''Failed to download https://origin/he/hello: HTTP Error 503''),
      \<lparr>files = Map.empty,
       trace = [EvStat ''assets/objects/he/hello'',
                EvFetch ''https://origin/he/hello'', EvSleep 2000,
                EvFetch ''https://origin/he/hello'', EvSleep 2000,
                EvFetch ''https://origin/he/hello'', EvSleep 2000,
                EvFetch ''https://origin/he/hello'', EvSleep 2000,
                EvFetch ''https://origin/he/hello'', EvSleep 2000]\<rparr>)"
proof -
  let ?p = "''assets/objects/he/hello''"
  let ?u = "''https://origin/he/hello''"
  let ?s1 = "log (EvStat ?p) empty_world"
  have r0: "requests ?u ?s1 = 0" by (simp add: empty_world_def requests_def log_def)
  have p1: "probe recovering_env ?p ''sha1'' ''hello'' 5 empty_world = (Inr False, ?s1)"
    by (simp add: probe_cases recovering_env_def quiet_env_def empty_world_def)
  have n: "(2::nat) < maxDownloadRetries" by (simp add: maxDownloadRetries_def)
  have f: "\<forall>i<(2::nat). \<exists>r. attempt recovering_env ?u ''sha1'' ''hello'' 5 (requests ?u ?s1 + i) = Retry r"
    by (simp add: r0 attempt_def recovering_env_def quiet_env_def less_Suc_eq numeral_2_eq_2)
  have a: "attempt recovering_env ?u ''sha1'' ''hello'' 5 (requests ?u ?s1 + 2) = Accepted ''hello''"
    by (simp add: r0 attempt_def recovering_env_def quiet_env_def)
  have nf: "mkdir_fault recovering_env (dirname ?p) = None \<and> write_fault recovering_env ?p = None"
    by (simp add: recovering_env_def quiet_env_def)
  from download_retry_policy[of recovering_env ?p ?u "''sha1''" "''hello''" 5 empty_world]
    p1 n f a nf
  have "downloadIfChanged recovering_env ?p ?u ''sha1'' ''hello'' 5 empty_world
          = store recovering_env ?p (Some ''hello'') (log (EvFetch ?u) (retried ?u 2 ?s1))"
    by blast
  then have first: "downloadIfChanged recovering_env ?p ?u ''sha1'' ''hello'' 5 empty_world
   = (Inr True,
      \<lparr>files = [?p \<mapsto> ''hello''],
       trace = [EvStat ?p, EvFetch ?u, EvSleep 2000, EvFetch ?u, EvSleep 2000, EvFetch ?u,
                EvMkdir ''assets/objects/he'', EvWrite ?p ''hello'']\<rparr>)"
    by (simp add: store_cases recovering_env_def quiet_env_def retried_def log_def empty_world_def
        dirname_def numeral_2_eq_2)
  have p2: "probe down_env ?p ''sha1'' ''hello'' 5 empty_world = (Inr False, ?s1)"
    by (simp add: probe_cases down_env_def quiet_env_def empty_world_def)
  have f2: "\<forall>i<maxDownloadRetries. \<exists>r. attempt down_env ?u ''sha1'' ''hello'' 5 (requests ?u ?s1 + i) = Retry r"
    by (simp add: attempt_def down_env_def quiet_env_def)
  have a2: "attempt down_env ?u ''sha1'' ''hello'' 5 (requests ?u ?s1 + (maxDownloadRetries - 1))
              = Retry ''HTTP Error 503''"
    by (simp add: attempt_def down_env_def quiet_env_def show_nat.simps)
  from download_retry_policy[of down_env ?p ?u "''sha1''" "''hello''" 5 empty_world] p2 f2 a2
  have "downloadIfChanged down_env ?p ?u ''sha1'' ''hello'' 5 empty_world
          = (Inl (DownloadFailed ?u ''HTTP Error 503''), retried ?u maxDownloadRetries ?s1)"
    by blast
  then have second: "downloadIfChanged down_env ?p ?u ''sha1'' ''hello'' 5 empty_world
   = (Inl (Error ''Failed to download https://origin/he/hello: HTTP Error 503''),
      \<lparr>files = Map.empty,
       trace = [EvStat ?p, EvFetch ?u, EvSleep 2000, EvFetch ?u, EvSleep 2000,
                EvFetch ?u, EvSleep 2000, EvFetch ?u, EvSleep 2000, EvFetch ?u, EvSleep 2000]\<rparr>)"
    by (simp add: DownloadFailed_def retried_def log_def empty_world_def maxDownloadRetries_def
        eval_nat_numeral)
  from first second show ?thesis by (rule conjI)
qed

text \<open>
  Claim C7, as the code has it. An accepted download is stored by
  \<^verbatim>\<open>mkdir\<close> on the parent directory and a plain \<^verbatim>\<open>writeFile\<close> on the
  target path; there is no temporary file and no rename. When both calls succeed the
  path holds exactly the accepted bytes and the result is \<^verbatim>\<open>true\<close>. When
  \<^verbatim>\<open>mkdir\<close> fails or the file cannot be opened, the error is thrown and the
  files are as before. When the write fails after the file was opened, the error is
  thrown and the path holds the bytes written so far, not its previous content.
\<close>

theorem accepted_download_is_stored_by_plain_write:
  assumes "probe env p m c sz s = (Inr False, s1)"
    and "n < maxDownloadRetries"
    and "\<forall>i<n. \<exists>r. attempt env u m c sz (requests u s1 + i) = Retry r"
    and "attempt env u m c sz (requests u s1 + n) = Accepted buf"
  shows "(\<exists>evs. trace (snd (downloadIfChanged env p u m c sz s))
                  = trace s1 @ evs @ [EvFetch u, EvMkdir (dirname p)]
                    @ (if mkdir_fault env (dirname p) = None then [EvWrite p buf] else []))
     \<and> (case mkdir_fault env (dirname p) of
           Some cd \<Rightarrow>
             fst (downloadIfChanged env p u m c sz s) = Inl (SystemError cd)
             \<and> files (snd (downloadIfChanged env p u m c sz s)) = files s
         | None \<Rightarrow>
             (case write_fault env p of
                None \<Rightarrow>
                  fst (downloadIfChanged env p u m c sz s) = Inr True
                  \<and> files (snd (downloadIfChanged env p u m c sz s)) = (files s)(p \<mapsto> buf)
              | Some (OpenFailed cd) \<Rightarrow>
                  fst (downloadIfChanged env p u m c sz s) = Inl (SystemError cd)
                  \<and> files (snd (downloadIfChanged env p u m c sz s)) = files s
              | Some (WriteFailed cd k) \<Rightarrow>
                  fst (downloadIfChanged env p u m c sz s) = Inl (SystemError cd)
                  \<and> files (snd (downloadIfChanged env p u m c sz s))
                      = (files s)(p \<mapsto> take k buf)))"
proof -
  let ?s2 = "log (EvFetch u) (retried u n s1)"
  have d: "downloadIfChanged env p u m c sz s = store env p (Some buf) ?s2"
    using assms by (rule dic_accepted)
  have f1: "files s1 = files s" using probe_files[of env p m c sz s] assms(1) by simp
  then have f2: "files ?s2 = files s" by (simp add: retried_def log_def)
  have 1: "\<exists>evs. trace (snd (downloadIfChanged env p u m c sz s))
                  = trace s1 @ evs @ [EvFetch u, EvMkdir (dirname p)]
                    @ (if mkdir_fault env (dirname p) = None then [EvWrite p buf] else [])"
    unfolding d
    by (rule exI[of _ "concat (replicate n [EvFetch u, EvSleep 2000])"])
       (simp add: store_cases retried_def log_def split: option.splits write_failure.splits)
  have 2: "case mkdir_fault env (dirname p) of
           Some cd \<Rightarrow>
             fst (downloadIfChanged env p u m c sz s) = Inl (SystemError cd)
             \<and> files (snd (downloadIfChanged env p u m c sz s)) = files s
         | None \<Rightarrow>
             (case write_fault env p of
                None \<Rightarrow>
                  fst (downloadIfChanged env p u m c sz s) = Inr True
                  \<and> files (snd (downloadIfChanged env p u m c sz s)) = (files s)(p \<mapsto> buf)
              | Some (OpenFailed cd) \<Rightarrow>
                  fst (downloadIfChanged env p u m c sz s) = Inl (SystemError cd)
                  \<and> files (snd (downloadIfChanged env p u m c sz s)) = files s
              | Some (WriteFailed cd k) \<Rightarrow>
                  fst (downloadIfChanged env p u m c sz s) = Inl (SystemError cd)
                  \<and> files (snd (downloadIfChanged env p u m c sz s))
                      = (files s)(p \<mapsto> take k buf))"
    unfolding d
    by (simp add: store_cases f1 retried_def log_def split: option.splits write_failure.splits)
  from 1 2 show ?thesis by (rule conjI)
qed

theorem accepted_download_is_stored_by_plain_write_witness:
  "fst (downloadIfChanged mirror_env ''assets/objects/aa/aa11''
          ''https://resources.download.minecraft.net/aa/aa11'' ''sha1'' ''aa11'' 4
          (empty_world\<lparr>files := [''assets/objects/aa/aa11'' \<mapsto> ''zzzz'']\<rparr>)) = Inr True
   \<and> files (snd (downloadIfChanged mirror_env ''assets/objects/aa/aa11''
          ''https://resources.download.minecraft.net/aa/aa11'' ''sha1'' ''aa11'' 4
          (empty_world\<lparr>files := [''assets/objects/aa/aa11'' \<mapsto> ''zzzz'']\<rparr>)))
      = [''assets/objects/aa/aa11'' \<mapsto> ''aa11'']"
proof -
  let ?p = "''assets/objects/aa/aa11''"
  let ?u = "''https://resources.download.minecraft.net/aa/aa11''"
  let ?s = "empty_world\<lparr>files := [?p \<mapsto> ''zzzz'']\<rparr>"
  let ?s1 = "log (EvRead ?p) (log (EvStat ?p) ?s)"
  have r0: "requests ?u ?s1 = 0" by (simp add: empty_world_def requests_def log_def)
  have h1: "probe mirror_env ?p ''sha1'' ''aa11'' 4 ?s = (Inr False, ?s1)"
    by (simp add: probe_cases mirror_env_def quiet_env_def empty_world_def)
  have h2: "(0::nat) < maxDownloadRetries" by (simp add: maxDownloadRetries_def)
  have h3: "\<forall>i<(0::nat). \<exists>r. attempt mirror_env ?u ''sha1'' ''aa11'' 4 (requests ?u ?s1 + i) = Retry r"
    by simp
  have h4: "attempt mirror_env ?u ''sha1'' ''aa11'' 4 (requests ?u ?s1 + 0) = Accepted ''aa11''"
    by (simp add: r0 attempt_def mirror_env_def quiet_env_def)
  from accepted_download_is_stored_by_plain_write[OF h1 h2 h3 h4]
  show ?thesis
    by (simp add: mirror_env_def quiet_env_def empty_world_def)
qed

theorem write_is_not_atomic_counterexample:
  "files (empty_world\<lparr>files := [''assets/objects/aa/aa11'' \<mapsto> ''zzzz'']\<rparr>)
      ''assets/objects/aa/aa11'' = Some ''zzzz''
   \<and> fst (downloadIfChanged full_disk_env ''assets/objects/aa/aa11''
          ''https://resources.download.minecraft.net/aa/aa11'' ''sha1'' ''aa11'' 4
          (empty_world\<lparr>files := [''assets/objects/aa/aa11'' \<mapsto> ''zzzz'']\<rparr>))
      = Inl (SystemError ''ENOSPC'')
   \<and> files (snd (downloadIfChanged full_disk_env ''assets/objects/aa/aa11''
          ''https://resources.download.minecraft.net/aa/aa11'' ''sha1'' ''aa11'' 4
          (empty_world\<lparr>files := [''assets/objects/aa/aa11'' \<mapsto> ''zzzz'']\<rparr>)))
      ''assets/objects/aa/aa11'' = Some ''aa''"
  by (simp add: downloadIfChanged_def probe_cases download_loop.simps maxDownloadRetries_def
      fetch_def requests_def log_def store_cases full_disk_env_def mirror_env_def quiet_env_def
      empty_world_def)












lemmas match_ends_star = match_ends.simps(10)

declare match_ends.simps(10) [simp del]

lemma parse_literal:
  "parse_regex regexp_literal_pattern =
     Some (RSeq (RChr (CHR ''/'')) (RSeq (RGroup 1 (RStar RDot))
            (RSeq (RChr (CHR ''/'')) (RGroup 2 (RStar (RClass False [Range (CHR ''a'') (CHR ''z'')]))))), 2)"
  by code_simp

lemma dot_star_line:
  "(seen', rest', caps') \<in> set (match_ends ml False (RStar RDot) (seen, rest, caps)) \<Longrightarrow>
     \<exists>w. rest = w @ rest' \<and> (\<forall>ch\<in>set w. \<not> line_terminator ch)"
proof (induction rest arbitrary: seen)
  case Nil
  then show ?case by (simp add: match_ends_star)
next
  case (Cons ch rest)
  show ?case
  proof (cases "line_terminator ch")
    case True
    with Cons.prems show ?thesis by (simp add: match_ends_star)
  next
    case False
    with Cons.prems have
      "(seen', rest', caps') \<in> set (match_ends ml False (RStar RDot) (ch # seen, rest, caps))
       \<or> rest' = ch # rest"
      by (subst (asm) match_ends_star) auto
    then show ?thesis
    proof
      assume "(seen', rest', caps') \<in> set (match_ends ml False (RStar RDot) (ch # seen, rest, caps))"
      from Cons.IH[OF this] obtain w where "rest = w @ rest'" "\<forall>ch\<in>set w. \<not> line_terminator ch"
        by blast
      with False show ?thesis by (intro exI[of _ "ch # w"]) simp
    next
      assume "rest' = ch # rest"
      then show ?thesis by (intro exI[of _ "[]"]) simp
    qed
  qed
qed

lemma literal_match_shape:
  assumes "st' \<in> set (match_ends ml False
      (RSeq (RChr (CHR ''/'')) (RSeq (RGroup 1 (RStar RDot)) (RSeq (RChr (CHR ''/'')) r)))
      (seen, rest, caps))"
  shows "\<exists>pattern tail. rest = ''/'' @ pattern @ ''/'' @ tail
           \<and> (\<forall>ch\<in>set pattern. \<not> line_terminator ch)"
proof -
  from assms obtain rest0 where r0: "rest = CHR ''/'' # rest0"
    by (cases rest) (auto split: if_splits)
  with assms obtain s1 r1 c1 where
    g: "(s1, r1, c1) \<in> set (match_ends ml False (RStar RDot) (CHR ''/'' # seen, rest0, caps))"
    and more: "match_ends ml False (RChr (CHR ''/'')) 
                 (s1, r1, (1, rev (take (length s1 - length (CHR ''/'' # seen)) s1)) # c1) \<noteq> []"
    by (auto split: if_splits list.splits)
  from dot_star_line[OF g] obtain w where w: "rest0 = w @ r1" "\<forall>ch\<in>set w. \<not> line_terminator ch"
    by blast
  from more obtain tail where "r1 = CHR ''/'' # tail"
    by (cases r1) (auto split: if_splits)
  with r0 w show ?thesis by (intro exI[of _ w] exI[of _ tail]) simp
qed

lemma first_match_start:
  "first_match sticky ml da r seen input = Some x \<Longrightarrow>
     \<exists>pre post. input = pre @ post \<and> match_ends ml da r (rev pre @ seen, post, []) \<noteq> []"
proof (induction input arbitrary: seen)
  case Nil
  then show ?case by (auto split: list.splits)
next
  case (Cons ch input)
  show ?case
  proof (cases "match_ends ml da r (seen, ch # input, [])")
    case (Cons st sts)
    then show ?thesis by (intro exI[of _ "[]"] exI[of _ "ch # input"]) simp
  next
    case Nil
    with Cons.prems have "first_match sticky ml da r (ch # seen) input = Some x"
      by (simp split: if_splits)
    from Cons.IH[OF this] obtain pre post where
      "input = pre @ post" "match_ends ml da r (rev pre @ ch # seen, post, []) \<noteq> []" by blast
    then show ?thesis by (intro exI[of _ "ch # pre"] exI[of _ post]) simp
  qed
qed

lemma regexp_literal_shape: "regexp_literal str \<noteq> None \<Longrightarrow> has_regexp_shape str"
proof -
  let ?r = "RSeq (RChr (CHR ''/'')) (RSeq (RGroup 1 (RStar RDot))
            (RSeq (RChr (CHR ''/'')) (RGroup 2 (RStar (RClass False [Range (CHR ''a'') (CHR ''z'')])))))"
  assume "regexp_literal str \<noteq> None"
  then obtain x where "first_match False False False ?r [] str = Some x"
    by (auto simp: regexp_literal_def parse_literal exec_regex_def split: option.splits)
  from first_match_start[OF this] obtain pre post where
    p: "str = pre @ post" "match_ends False False ?r (rev pre @ [], post, []) \<noteq> []" by blast
  then obtain st' where "st' \<in> set (match_ends False False ?r (rev pre @ [], post, []))"
    by (meson last_in_set)
  from literal_match_shape[OF this] obtain pattern tail where
    "post = ''/'' @ pattern @ ''/'' @ tail" "\<forall>ch\<in>set pattern. \<not> line_terminator ch" by blast
  with p(1) show ?thesis unfolding has_regexp_shape_def by blast
qed

lemma guess_absent:
  assumes "fst (readFile env f s) = Inl e" and "code e = Some ''ENOENT''"
  shows "guessCurrentMinecraftVersionFromFile env f re s = (Inr None, log (EvRead f) s)"
proof -
  have "readFile env f s = (Inl e, log (EvRead f) s)"
    using assms(1) by (simp add: readFile_def)
  with assms(2) show ?thesis by (simp add: guessCurrentMinecraftVersionFromFile_def)
qed

lemma guess_read:
  assumes "fst (readFile env f s) = Inr content"
  shows "guessCurrentMinecraftVersionFromFile env f re s =
     (case regexp_literal re of
             None \<Rightarrow>
               (Inl (Error ''minecraft-version-regexp doesnt match format /regexp/flags''),
                log (EvRead f) s)
           | Some (pattern, flags) \<Rightarrow>
               (case RegExp_exec env pattern flags content of
                  Inl e \<Rightarrow> (Inl e, log (EvRead f) s)
                | Inr None \<Rightarrow> (Inr None, log (EvRead f) s)
                | Inr (Some ms) \<Rightarrow>
                    (Inr (if 1 < length ms then ms ! 1 else None), log (EvRead f) s)))"
proof -
  have "readFile env f s = (Inr content, log (EvRead f) s)"
    using assms(1) by (simp add: readFile_def)
  then show ?thesis by (simp add: guessCurrentMinecraftVersionFromFile_def)
qed

text \<open>
  Claim C10. When the version file is read and the regular-expression string does not
  contain the shape slash, pattern, slash (the flags may be empty),
  \<^verbatim>\<open>guessCurrentMinecraftVersionFromFile\<close> throws
  \<^verbatim>\<open>minecraft-version-regexp doesnt match format /regexp/flags\<close>. The string is
  looked at only after the file was read: for an absent file the result is
  \<^verbatim>\<open>undefined\<close> whatever the string is.
\<close>

theorem malformed_regexp_throws_only_after_the_read:
  "(\<forall>content. fst (readFile env f s) = Inr content \<and> \<not> has_regexp_shape re \<longrightarrow>
        guessCurrentMinecraftVersionFromFile env f re s
          = (Inl (Error ''minecraft-version-regexp doesnt match format /regexp/flags''),
             log (EvRead f) s))
   \<and> (\<forall>e. fst (readFile env f s) = Inl e \<and> code e = Some ''ENOENT'' \<longrightarrow>
        guessCurrentMinecraftVersionFromFile env f re s = (Inr None, log (EvRead f) s))"
proof (intro conjI allI impI)
  fix content
  assume a: "fst (readFile env f s) = Inr content \<and> \<not> has_regexp_shape re"
  then have "regexp_literal re = None" using regexp_literal_shape by blast
  with a show "guessCurrentMinecraftVersionFromFile env f re s
          = (Inl (Error ''minecraft-version-regexp doesnt match format /regexp/flags''),
             log (EvRead f) s)"
    by (simp add: guess_read)
next
  fix e
  assume "fst (readFile env f s) = Inl e \<and> code e = Some ''ENOENT''"
  then show "guessCurrentMinecraftVersionFromFile env f re s = (Inr None, log (EvRead f) s)"
    by (simp add: guess_absent)
qed

lemma no_slash_no_shape: "CHR ''/'' \<notin> set str \<Longrightarrow> \<not> has_regexp_shape str"
  by (auto simp: has_regexp_shape_def)

theorem malformed_regexp_throws_only_after_the_read_witness:
  "fst (guessCurrentMinecraftVersionFromFile quiet_env ''gradle.properties''
          ''minecraft_version=(.*)''
          (empty_world\<lparr>files := [''gradle.properties'' \<mapsto> gradle_properties]\<rparr>))
     = Inl (Error ''minecraft-version-regexp doesnt match format /regexp/flags'')
   \<and> fst (guessCurrentMinecraftVersionFromFile quiet_env ''gradle.properties''
          ''minecraft_version=(.*)'' empty_world) = Inr None"
proof -
  let ?s = "empty_world\<lparr>files := [''gradle.properties'' \<mapsto> gradle_properties]\<rparr>"
  have r1: "fst (readFile quiet_env ''gradle.properties'' ?s) = Inr gradle_properties"
    by (simp add: readFile_def quiet_env_def)
  have n: "\<not> has_regexp_shape ''minecraft_version=(.*)''"
    by (rule no_slash_no_shape) simp
  have r2: "fst (readFile quiet_env ''gradle.properties'' empty_world) = Inl (SystemError ''ENOENT'')"
    by (simp add: readFile_def quiet_env_def empty_world_def)
  have c: "code (SystemError ''ENOENT'') = Some ''ENOENT''" by simp
  from malformed_regexp_throws_only_after_the_read
         [of quiet_env "''gradle.properties''" ?s "''minecraft_version=(.*)''"] r1 n
  have a: "guessCurrentMinecraftVersionFromFile quiet_env ''gradle.properties''
          ''minecraft_version=(.*)'' ?s
     = (Inl (Error ''minecraft-version-regexp doesnt match format /regexp/flags''),
        log (EvRead ''gradle.properties'') ?s)"
    by blast
  from malformed_regexp_throws_only_after_the_read
         [of quiet_env "''gradle.properties''" empty_world "''minecraft_version=(.*)''"] r2 c
  have b: "guessCurrentMinecraftVersionFromFile quiet_env ''gradle.properties''
          ''minecraft_version=(.*)'' empty_world
     = (Inr None, log (EvRead ''gradle.properties'') empty_world)"
    by blast
  from a b show ?thesis by simp
qed

lemma literal_of_version_regexp:
  "regexp_literal version_regexp =
     Some (''^'' @ [CHR 0x5C] @ ''s*minecraft_version'' @ [CHR 0x5C] @ ''s*='' @ [CHR 0x5C]
           @ ''s*(.+)'' @ [CHR 0x5C] @ ''s*$'', ''m'')"
  by code_simp

lemma exec_version_regexp:
  "RegExp_fragment (''^'' @ [CHR 0x5C] @ ''s*minecraft_version'' @ [CHR 0x5C] @ ''s*='' @ [CHR 0x5C]
           @ ''s*(.+)'' @ [CHR 0x5C] @ ''s*$'') ''m'' gradle_properties
     = Inr (Some [Some ''minecraft_version=1.21.1\<newline>'', Some ''1.21.1''])"
  by code_simp

lemma literal_of_word_regexp:
  "regexp_literal (''/minecraft_version=('' @ [CHR 0x5C] @ ''w+)/'')
     = Some (''minecraft_version=('' @ [CHR 0x5C] @ ''w+)'', [])"
  by code_simp

lemma exec_word_regexp:
  "RegExp_fragment (''minecraft_version=('' @ [CHR 0x5C] @ ''w+)'') [] ''hello world'' = Inr None"
  by code_simp

lemma readFile_same:
  "files s' f = files s f \<Longrightarrow> fst (readFile env f s') = fst (readFile env f s)"
  by (simp add: readFile_def split: option.splits)

lemma guess_fst:
  "fst (guessCurrentMinecraftVersionFromFile env f re s) =
     (case fst (readFile env f s) of
        Inl e \<Rightarrow> if code e = Some ''ENOENT'' then Inr None else Inl e
      | Inr content \<Rightarrow>
          (case regexp_literal re of
             None \<Rightarrow> Inl (Error ''minecraft-version-regexp doesnt match format /regexp/flags'')
           | Some (pattern, flags) \<Rightarrow>
               (case RegExp_exec env pattern flags content of
                  Inl e \<Rightarrow> Inl e
                | Inr None \<Rightarrow> Inr None
                | Inr (Some ms) \<Rightarrow> Inr (if 1 < length ms then ms ! 1 else None))))"
  by (simp add: guessCurrentMinecraftVersionFromFile_def readFile_def
      split: option.splits sum.splits)

lemma guess_snd: "snd (guessCurrentMinecraftVersionFromFile env f re s) = log (EvRead f) s"
  by (simp add: guessCurrentMinecraftVersionFromFile_def readFile_def
      split: option.splits sum.splits)


lemma scrape_env_exec: "RegExp_exec scrape_env = RegExp_fragment"
  by (simp add: scrape_env_def)

lemma scrape_env_read:
  "fst (readFile scrape_env f (empty_world\<lparr>files := [f \<mapsto> content]\<rparr>)) = Inr content"
  by (simp add: readFile_def scrape_env_def quiet_env_def)

lemma scrape_missing:
  "fst (guessCurrentMinecraftVersionFromFile scrape_env ''doesntexist'' ''/(.*)/'' empty_world)
     = Inr None"
proof -
  have "fst (readFile scrape_env ''doesntexist'' empty_world) = Inl (SystemError ''ENOENT'')"
    by (simp add: readFile_def scrape_env_def quiet_env_def empty_world_def)
  then show ?thesis
    by (simp add: guess_fst)
qed

lemma scrape_hello:
  "fst (guessCurrentMinecraftVersionFromFile scrape_env ''gradle.properties''
          (''/minecraft_version=('' @ [CHR 0x5C] @ ''w+)/'')
          (empty_world\<lparr>files := [''gradle.properties'' \<mapsto> ''hello world'']\<rparr>))
     = Inr None"
  by (simp only: guess_fst scrape_env_read literal_of_word_regexp scrape_env_exec
      exec_word_regexp sum.case option.case prod.case)

lemma scrape_version:
  "fst (guessCurrentMinecraftVersionFromFile scrape_env ''gradle.properties'' version_regexp
          (empty_world\<lparr>files := [''gradle.properties'' \<mapsto> gradle_properties]\<rparr>))
     = Inr (Some ''1.21.1'')"
proof -
  have "fst (guessCurrentMinecraftVersionFromFile scrape_env ''gradle.properties'' version_regexp
          (empty_world\<lparr>files := [''gradle.properties'' \<mapsto> gradle_properties]\<rparr>))
     = Inr (if 1 < length [Some ''minecraft_version=1.21.1\<newline>'', Some ''1.21.1'']
            then [Some ''minecraft_version=1.21.1\<newline>'', Some ''1.21.1''] ! 1 else None)"
    by (simp only: guess_fst scrape_env_read literal_of_version_regexp scrape_env_exec
        exec_version_regexp sum.case option.case prod.case)
  then show ?thesis by simp
qed

text \<open>
  Claim C8. The result of \<^verbatim>\<open>guessCurrentMinecraftVersionFromFile\<close> depends on the
  world only through the content or absence of the file, and no file changes. For an
  absent file the result is \<^verbatim>\<open>undefined\<close>. For a file that is read and a string
  of the form slash, pattern, slash, flags, the result is \<^verbatim>\<open>undefined\<close> when
  \<^verbatim>\<open>exec\<close> on the whole content finds no match, and otherwise the first capture
  group of the match that \<^verbatim>\<open>exec\<close> returns (its first match). With the matcher
  for \<^verbatim>\<open>exec\<close>, the three cases of the tests come out as the tests say: a missing
  file and a content that nothing matches give \<^verbatim>\<open>undefined\<close>, and the
  properties file with the multi-line pattern gives \<^verbatim>\<open>1.21.1\<close>.
\<close>

theorem version_scrape:
  "(\<forall>s'. files s' f = files s f \<longrightarrow>
        fst (guessCurrentMinecraftVersionFromFile env f re s')
          = fst (guessCurrentMinecraftVersionFromFile env f re s))
   \<and> files (snd (guessCurrentMinecraftVersionFromFile env f re s)) = files s
   \<and> (\<forall>e. fst (readFile env f s) = Inl e \<and> code e = Some ''ENOENT'' \<longrightarrow>
         fst (guessCurrentMinecraftVersionFromFile env f re s) = Inr None)
   \<and> (\<forall>content pattern flags.
         fst (readFile env f s) = Inr content \<and> regexp_literal re = Some (pattern, flags) \<longrightarrow>
           (RegExp_exec env pattern flags content = Inr None \<longrightarrow>
              fst (guessCurrentMinecraftVersionFromFile env f re s) = Inr None)
           \<and> (\<forall>ms. RegExp_exec env pattern flags content = Inr (Some ms) \<longrightarrow>
                 fst (guessCurrentMinecraftVersionFromFile env f re s)
                   = Inr (if 1 < length ms then ms ! 1 else None)))
   \<and> fst (guessCurrentMinecraftVersionFromFile scrape_env ''doesntexist'' ''/(.*)/'' empty_world)
       = Inr None
   \<and> fst (guessCurrentMinecraftVersionFromFile scrape_env ''gradle.properties''
            (''/minecraft_version=('' @ [CHR 0x5C] @ ''w+)/'')
            (empty_world\<lparr>files := [''gradle.properties'' \<mapsto> ''hello world'']\<rparr>))
       = Inr None
   \<and> fst (guessCurrentMinecraftVersionFromFile scrape_env ''gradle.properties'' version_regexp
            (empty_world\<lparr>files := [''gradle.properties'' \<mapsto> gradle_properties]\<rparr>))
       = Inr (Some ''1.21.1'')"
proof (intro conjI allI impI)
  fix s' :: world assume "files s' f = files s f"
  then have "fst (readFile env f s') = fst (readFile env f s)"
    by (rule readFile_same)
  then show "fst (guessCurrentMinecraftVersionFromFile env f re s')
          = fst (guessCurrentMinecraftVersionFromFile env f re s)"
    by (simp only: guess_fst)
next
  show "files (snd (guessCurrentMinecraftVersionFromFile env f re s)) = files s"
    by (simp add: guess_snd log_def)
next
  fix e assume "fst (readFile env f s) = Inl e \<and> code e = Some ''ENOENT''"
  then show "fst (guessCurrentMinecraftVersionFromFile env f re s) = Inr None"
    by (simp add: guess_fst)
next
  fix content pattern flags
  assume a: "fst (readFile env f s) = Inr content \<and> regexp_literal re = Some (pattern, flags)"
  {
    assume "RegExp_exec env pattern flags content = Inr None"
    with a show "fst (guessCurrentMinecraftVersionFromFile env f re s) = Inr None"
      by (simp add: guess_fst)
  next
    fix ms assume "RegExp_exec env pattern flags content = Inr (Some ms)"
    with a show "fst (guessCurrentMinecraftVersionFromFile env f re s)
                   = Inr (if 1 < length ms then ms ! 1 else None)"
      by (simp add: guess_fst)
  }
qed (rule scrape_missing scrape_hello scrape_version)+

theorem version_scrape_witness:
  "fst (guessCurrentMinecraftVersionFromFile scrape_env ''gradle.properties'' version_regexp
          (empty_world\<lparr>files := [''gradle.properties'' \<mapsto> gradle_properties]\<rparr>))
     = Inr (Some ''1.21.1'')
   \<and> fst (guessCurrentMinecraftVersionFromFile scrape_env ''gradle.properties'' version_regexp
          (empty_world\<lparr>files := [''gradle.properties'' \<mapsto> gradle_properties],
                        trace := [EvSleep 1]\<rparr>))
     = Inr (Some ''1.21.1'')"
proof -
  define s where "s = empty_world\<lparr>files := [''gradle.properties'' \<mapsto> gradle_properties]\<rparr>"
  define s' where "s' = empty_world\<lparr>files := [''gradle.properties'' \<mapsto> gradle_properties],
                         trace := [EvSleep 1]\<rparr>"
  define pattern where "pattern = ''^'' @ [CHR 0x5C] @ ''s*minecraft_version'' @ [CHR 0x5C]
           @ ''s*='' @ [CHR 0x5C] @ ''s*(.+)'' @ [CHR 0x5C] @ ''s*$''"
  define ms where "ms = [Some ''minecraft_version=1.21.1\<newline>'', Some ''1.21.1'']"
  note t = version_scrape[where s = s and f = "''gradle.properties''" and env = scrape_env
      and re = version_regexp]
  have r: "fst (readFile scrape_env ''gradle.properties'' s) = Inr gradle_properties"
    unfolding s_def by (rule scrape_env_read)
  have l: "regexp_literal version_regexp = Some (pattern, ''m'')"
    unfolding pattern_def by (rule literal_of_version_regexp)
  have x: "RegExp_exec scrape_env pattern ''m'' gradle_properties = Inr (Some ms)"
    unfolding pattern_def ms_def scrape_env_exec by (rule exec_version_regexp)
  have same: "files s' ''gradle.properties'' = files s ''gradle.properties''"
    by (simp add: s_def s'_def)
  have d: "\<forall>ms. RegExp_exec scrape_env pattern ''m'' gradle_properties = Inr (Some ms) \<longrightarrow>
             fst (guessCurrentMinecraftVersionFromFile scrape_env ''gradle.properties''
                    version_regexp s) = Inr (if 1 < length ms then ms ! 1 else None)"
    using t[THEN conjunct2, THEN conjunct2, THEN conjunct2, THEN conjunct1, rule_format,
            of gradle_properties pattern "''m''", OF conjI[OF r l]]
    by (rule conjunct2)
  have a: "fst (guessCurrentMinecraftVersionFromFile scrape_env ''gradle.properties''
                 version_regexp s) = Inr (if 1 < length ms then ms ! 1 else None)"
    using d[rule_format, OF x] .
  have b: "fst (guessCurrentMinecraftVersionFromFile scrape_env ''gradle.properties''
                 version_regexp s')
         = fst (guessCurrentMinecraftVersionFromFile scrape_env ''gradle.properties''
                 version_regexp s)"
    using t[THEN conjunct1, rule_format, OF same] .
  have v: "(if 1 < length ms then ms ! 1 else None) = Some ''1.21.1''"
    by (simp add: ms_def)
  from a b v show ?thesis
    unfolding s_def s'_def by simp
qed

lemma agree_object_object: "agree (object_job folder a) (object_job folder b)"
  by (auto simp: agree_def object_job_def dest: object_path_inj)

lemma agree_object_index: "agree (object_job folder a) (index_job folder b)"
  using index_path_not_object_path[of folder "ai_id b" "hash a"]
  by (auto simp: agree_def object_job_def index_job_def)

lemma agree_index_object: "agree (index_job folder b) (object_job folder a)"
  using index_path_not_object_path[of folder "ai_id b" "hash a"]
  by (auto simp: agree_def object_job_def index_job_def)

lemma agree_index_index: "ai_id a \<noteq> ai_id b \<Longrightarrow> agree (index_job folder a) (index_job folder b)"
  by (auto simp: agree_def index_job_def dest: index_path_inj)

lemma job_kept:
  assumes inj: "inj (createHash env ''sha1'')"
    and d: "job_done env j s"
    and ok: "fst (snd (job_task env j') s) = Inr x"
    and ag: "agree j j'"
  shows "files (snd (snd (job_task env j') s)) (fst j) = files s (fst j)"
proof (cases "fst j = fst j'")
  case False
  with job_effect[of env j' s] show ?thesis by metis
next
  case True
  obtain p u c z where j: "j = (p, u, c, z)" by (cases j)
  obtain p' u' c' z' where j': "j' = (p', u', c', z')" by (cases j')
  from True ag have pc: "p' = p" "c' = c" by (simp_all add: agree_def j j')
  let ?s' = "snd (snd (job_task env j') s)"
  from job_effect[of env j' s] ok have "job_done env j' ?s'" by blast
  then obtain b' where b': "files ?s' p = Some b'" "createHash env ''sha1'' b' = c"
    by (auto simp: j' pc locally_correct_def split: option.splits)
  from d obtain b where b: "files s p = Some b" "createHash env ''sha1'' b = c"
    by (auto simp: j locally_correct_def split: option.splits)
  from inj b'(2) b(2) have "b' = b" by (auto dest: injD)
  with b b' show ?thesis by (simp add: j)
qed

lemma settle_kept:
  assumes inj: "inj (createHash env ''sha1'')"
  shows "job_done env j s \<Longrightarrow> \<forall>r\<in>set (fst (settle_all (map (job_task env) js) s)). \<exists>x. r = Inr x
    \<Longrightarrow> \<forall>j'\<in>set js. agree j j'
    \<Longrightarrow> files (snd (settle_all (map (job_task env) js) s)) (fst j) = files s (fst j)"
proof (induction js arbitrary: s)
  case Nil
  then show ?case by simp
next
  case (Cons a js)
  obtain r sA where t: "snd (job_task env a) s = (r, sA)" by (cases "snd (job_task env a) s")
  let ?sB = "log (EvDone (fst (job_task env a)) r) sA"
  have sn: "snd (settle_all (map (job_task env) (a # js)) s)
            = snd (settle_all (map (job_task env) js) ?sB)"
    using t by (simp split: prod.splits)
  have fs: "fst (settle_all (map (job_task env) (a # js)) s)
            = r # fst (settle_all (map (job_task env) js) ?sB)"
    using t by (simp split: prod.splits)
  from Cons.prems(2) fs obtain x where r: "r = Inr x" by auto
  from Cons.prems(2) fs
  have rest: "\<forall>r\<in>set (fst (settle_all (map (job_task env) js) ?sB)). \<exists>x. r = Inr x" by simp
  have k: "files sA (fst j) = files s (fst j)"
    using job_kept[OF inj Cons.prems(1), of a x] t r Cons.prems(3) by simp
  then have fB: "files ?sB (fst j) = files s (fst j)" by (simp add: files_log)
  then have dB: "job_done env j ?sB"
    using Cons.prems(1) job_done_files[of ?sB j s env] by simp
  from Cons.IH[OF dB rest] Cons.prems(3) fB show ?case
    unfolding sn by simp
qed

end
